theory Spec2Isabelle
  imports Complex_Main "HOL-Library.Sublist" "HOL-Library.Code_Target_Nat"
begin

section \<open>Go strings: bytes, runes and UTF-8\<close>

text \<open>
  A Go \<^verbatim>\<open>string\<close> is a sequence of bytes, so it is modelled as \<^typ>\<open>string\<close>
  (a list of 8-bit characters); \<^verbatim>\<open>len(s)\<close> is \<^term>\<open>length s\<close> and \<^verbatim>\<open>s[:n]\<close> is
  \<^term>\<open>take n s\<close>. The functions of the standard library that work on runes
  (\<^verbatim>\<open>range\<close> over a string, \<^verbatim>\<open>regexp\<close>, \<^verbatim>\<open>strings.ToLower\<close>, \<^verbatim>\<open>strings.TrimSpace\<close>)
  decode UTF-8 the way \<^verbatim>\<open>unicode/utf8\<close> does: a byte that starts no well-formed
  sequence is the rune U+FFFD of width 1.
\<close>

type_synonym rune = nat

definition RuneError :: rune where
  "RuneError = 0xFFFD"

definition byte_at :: "string \<Rightarrow> nat \<Rightarrow> nat" where
  "byte_at s i = of_char (s ! i)"

text \<open>
  \<^verbatim>\<open>utf8.DecodeRuneInString\<close>: the rune at the head of the string and its width. The
  table \<^verbatim>\<open>first\<close> and the \<^verbatim>\<open>acceptRanges\<close> of the package are written out: \<open>sz\<close> is
  the length the first byte announces, \<open>lo\<close> and \<open>hi\<close> bound the second byte.
\<close>

definition DecodeRuneInString :: "string \<Rightarrow> rune \<times> nat" where
  "DecodeRuneInString s =
    (if s = [] then (RuneError, 0)
     else
       let s0 = byte_at s 0 in
       if s0 < 0x80 then (s0, 1)
       else if s0 < 0xC2 \<or> 0xF4 < s0 then (RuneError, 1)
       else
         let sz = (if s0 < 0xE0 then 2 else if s0 < 0xF0 then 3 else (4::nat));
             lo = (if s0 = 0xE0 then 0xA0 else if s0 = 0xF0 then 0x90 else (0x80::nat));
             hi = (if s0 = 0xED then 0x9F else if s0 = 0xF4 then 0x8F else (0xBF::nat))
         in
         if length s < sz then (RuneError, 1)
         else if byte_at s 1 < lo \<or> hi < byte_at s 1 then (RuneError, 1)
         else if sz \<le> 2 then ((s0 mod 32) * 64 + byte_at s 1 mod 64, 2)
         else if byte_at s 2 < 0x80 \<or> 0xBF < byte_at s 2 then (RuneError, 1)
         else if sz \<le> 3 then
           ((s0 mod 16) * 4096 + (byte_at s 1 mod 64) * 64 + byte_at s 2 mod 64, 3)
         else if byte_at s 3 < 0x80 \<or> 0xBF < byte_at s 3 then (RuneError, 1)
         else
           ((s0 mod 8) * 262144 + (byte_at s 1 mod 64) * 4096
              + (byte_at s 2 mod 64) * 64 + byte_at s 3 mod 64, 4))"

text \<open>
  What \<^verbatim>\<open>for _, r := range s\<close> and the regexp engine see: every rune of the string
  together with the bytes it was decoded from.
\<close>

fun segments :: "string \<Rightarrow> (rune \<times> string) list" where
  "segments [] = []"
| "segments (c # s) =
     (fst (DecodeRuneInString (c # s)), c # take (snd (DecodeRuneInString (c # s)) - 1) s)
       # segments (drop (snd (DecodeRuneInString (c # s)) - 1) s)"

definition runes :: "string \<Rightarrow> rune list" where
  "runes s = map fst (segments s)"

text \<open>\<^verbatim>\<open>utf8.AppendRune\<close>, which \<^verbatim>\<open>strings.Builder.WriteRune\<close> and \<^verbatim>\<open>strings.Map\<close> use.\<close>

definition EncodeRune :: "rune \<Rightarrow> string" where
  "EncodeRune r =
     (if r < 0x80 then [char_of r]
      else if r < 0x800 then [char_of (0xC0 + r div 64), char_of (0x80 + r mod 64)]
      else if 0x10FFFF < r \<or> (0xD800 \<le> r \<and> r \<le> 0xDFFF) then
        [char_of (0xEF::nat), char_of (0xBF::nat), char_of (0xBD::nat)]
      else if r < 0x10000 then
        [char_of (0xE0 + r div 4096), char_of (0x80 + (r div 64) mod 64),
         char_of (0x80 + r mod 64)]
      else
        [char_of (0xF0 + r div 262144), char_of (0x80 + (r div 4096) mod 64),
         char_of (0x80 + (r div 64) mod 64), char_of (0x80 + r mod 64)])"

text \<open>
  \<^verbatim>\<open>unicode.ToLower\<close>: the ASCII range is decided in the function itself; above it the
  function reads the case tables of the Unicode standard, which are taken here as the
  parameter \<open>tbl\<close>.
\<close>

definition unicode_ToLower :: "(rune \<Rightarrow> rune) \<Rightarrow> rune \<Rightarrow> rune" where
  "unicode_ToLower tbl r =
     (if r \<le> 0x7F then (if 0x41 \<le> r \<and> r \<le> 0x5A then r + 0x20 else r) else tbl r)"

text \<open>
  \<^verbatim>\<open>strings.ToLower\<close>: \<^verbatim>\<open>strings.Map(unicode.ToLower, s)\<close>; every rune is mapped and
  written back, an invalid byte as U+FFFD. (The byte loop for pure ASCII strings gives the
  same result.)
\<close>

definition ToLower :: "(rune \<Rightarrow> rune) \<Rightarrow> string \<Rightarrow> string" where
  "ToLower tbl s = concat (map (\<lambda>r. EncodeRune (unicode_ToLower tbl r)) (runes s))"

text \<open>\<^verbatim>\<open>utf8.RuneStart\<close>: the byte is not a continuation byte.\<close>

definition RuneStart :: "nat \<Rightarrow> bool" where
  "RuneStart b = (\<not> (0x80 \<le> b \<and> b \<le> 0xBF))"

text \<open>
  \<^verbatim>\<open>utf8.DecodeLastRuneInString\<close>: the function walks back from the last byte over at most
  three more bytes to the nearest byte that can start a rune, decodes from there and
  accepts the rune only when it ends exactly at the end of the string. \<open>back_len\<close> is
  \<^verbatim>\<open>end - start\<close> after that walk.
\<close>

definition back_len :: "string \<Rightarrow> nat" where
  "back_len s =
     (let n = length s in
      if 2 \<le> n \<and> RuneStart (byte_at s (n - 2)) then 2
      else if 3 \<le> n \<and> RuneStart (byte_at s (n - 3)) then 3
      else if 4 \<le> n \<and> RuneStart (byte_at s (n - 4)) then 4
      else min n 5)"

definition DecodeLastRuneInString :: "string \<Rightarrow> rune \<times> nat" where
  "DecodeLastRuneInString s =
     (if s = [] then (RuneError, 0)
      else if byte_at s (length s - 1) < 0x80 then (byte_at s (length s - 1), 1)
      else
        let d = DecodeRuneInString (drop (length s - back_len s) s)
        in if snd d \<noteq> back_len s then (RuneError, 1) else d)"

text \<open>\<^verbatim>\<open>unicode.IsSpace\<close> and \<^verbatim>\<open>unicode.IsControl\<close>.\<close>

definition IsSpace :: "rune \<Rightarrow> bool" where
  "IsSpace r =
     ((0x09 \<le> r \<and> r \<le> 0x0D) \<or> r = 0x20 \<or> r = 0x85 \<or> r = 0xA0 \<or> r = 0x1680
      \<or> (0x2000 \<le> r \<and> r \<le> 0x200A) \<or> r = 0x2028 \<or> r = 0x2029 \<or> r = 0x202F
      \<or> r = 0x205F \<or> r = 0x3000)"

definition IsControl :: "rune \<Rightarrow> bool" where
  "IsControl r = (r < 0x20 \<or> (0x7F \<le> r \<and> r < 0xA0))"

text \<open>
  \<^verbatim>\<open>strings.TrimSpace\<close> is \<^verbatim>\<open>TrimFunc(s, unicode.IsSpace)\<close> (its loops over ASCII bytes
  are a shortcut to the same result): the leading white space runes are found with
  \<^verbatim>\<open>range\<close>, the trailing ones with \<^verbatim>\<open>DecodeLastRuneInString\<close>.
\<close>

definition TrimLeftSpace :: "string \<Rightarrow> string" where
  "TrimLeftSpace s = concat (map snd (dropWhile (\<lambda>x. IsSpace (fst x)) (segments s)))"

lemma DecodeRuneInString_width:
  "s \<noteq> [] \<Longrightarrow> 0 < snd (DecodeRuneInString s)"
  by (simp add: DecodeRuneInString_def Let_def)

lemma DecodeLastRuneInString_width:
  assumes "s \<noteq> []"
  shows "0 < snd (DecodeLastRuneInString s)"
proof -
  have "0 < back_len s" using assms by (simp add: back_len_def Let_def)
  then show ?thesis
    using assms by (simp add: DecodeLastRuneInString_def Let_def)
qed

function TrimRightSpace :: "string \<Rightarrow> string" where
  "TrimRightSpace s =
     (if s = [] then []
      else if IsSpace (fst (DecodeLastRuneInString s))
      then TrimRightSpace (take (length s - snd (DecodeLastRuneInString s)) s)
      else s)"
  by pat_completeness auto
termination
proof (relation "measure length")
  show "wf (measure length)" by simp
next
  fix s :: string
  assume "s \<noteq> []"
  then have "0 < snd (DecodeLastRuneInString s)" "0 < length s"
    by (simp_all add: DecodeLastRuneInString_width)
  then show "(take (length s - snd (DecodeLastRuneInString s)) s, s) \<in> measure length"
    by simp
qed

declare TrimRightSpace.simps [simp del]

definition TrimSpace :: "string \<Rightarrow> string" where
  "TrimSpace s = TrimRightSpace (TrimLeftSpace s)"

text \<open>
  \<^verbatim>\<open>regexp.ReplaceAllString\<close> for a pattern \<^verbatim>\<open>[class]+\<close>: every maximal run of runes of
  the class becomes the replacement, the bytes of the other runes are copied.
\<close>

function replace_runs :: "(rune \<Rightarrow> bool) \<Rightarrow> string \<Rightarrow> (rune \<times> string) list \<Rightarrow> string" where
  "replace_runs P rep [] = []"
| "replace_runs P rep (x # xs) =
     (if P (fst x) then rep @ replace_runs P rep (dropWhile (\<lambda>y. P (fst y)) xs)
      else snd x @ replace_runs P rep xs)"
  by pat_completeness auto
termination
  by (relation "measure (\<lambda>(P, rep, xs). length xs)")
     (auto simp: less_Suc_eq_le length_dropWhile_le)

section \<open>models/utils.go\<close>

subsection \<open>GenerateSlug\<close>

definition is_az09 :: "rune \<Rightarrow> bool" where
  "is_az09 r = ((0x61 \<le> r \<and> r \<le> 0x7A) \<or> (0x30 \<le> r \<and> r \<le> 0x39))"

text \<open>\<^verbatim>\<open>strings.Trim(s, "-")\<close>: the cutset is one ASCII byte.\<close>

definition Trim_hyphen :: "string \<Rightarrow> string" where
  "Trim_hyphen s =
     rev (dropWhile (\<lambda>c. c = CHR ''-'') (rev (dropWhile (\<lambda>c. c = CHR ''-'') s)))"

text \<open>The pattern is \<^verbatim>\<open>[^a-z0-9]+\<close>, replaced by a hyphen.\<close>

definition GenerateSlug :: "(rune \<Rightarrow> rune) \<Rightarrow> string \<Rightarrow> string" where
  "GenerateSlug tbl title =
     (let slug = ToLower tbl title;
          slug = replace_runs (\<lambda>r. \<not> is_az09 r) ''-'' (segments slug);
          slug = Trim_hyphen slug
      in if length slug > 100 then Trim_hyphen (take 100 slug) else slug)"

subsection \<open>stripHTMLTags, SanitizeString\<close>

text \<open>
  The pattern \<^verbatim>\<open><[^>]*>\<close>, replaced by a space: a match starts at a \<^verbatim>\<open><\<close> that has a
  \<^verbatim>\<open>>\<close> somewhere after it and ends at the first such \<^verbatim>\<open>>\<close>.
\<close>

function strip_tags :: "(rune \<times> string) list \<Rightarrow> string" where
  "strip_tags [] = []"
| "strip_tags (x # xs) =
     (if fst x = 0x3C \<and> list_ex (\<lambda>y. fst y = 0x3E) xs
      then CHR '' '' # strip_tags (tl (dropWhile (\<lambda>y. fst y \<noteq> 0x3E) xs))
      else snd x @ strip_tags xs)"
  by pat_completeness auto
termination
proof (relation "measure length")
  show "wf (measure length)" by simp
next
  fix x :: "rune \<times> string" and xs :: "(rune \<times> string) list"
  have "length (tl (dropWhile (\<lambda>y. fst y \<noteq> 0x3E) xs)) \<le> length xs"
    by (simp add: le_trans[OF diff_le_self length_dropWhile_le])
  then show "(tl (dropWhile (\<lambda>y. fst y \<noteq> 0x3E) xs), x # xs) \<in> measure length"
    by simp
next
  fix x :: "rune \<times> string" and xs :: "(rune \<times> string) list"
  show "(xs, x # xs) \<in> measure length" by simp
qed

definition stripHTMLTags :: "string \<Rightarrow> string" where
  "stripHTMLTags content = strip_tags (segments content)"

definition SanitizeString :: "string \<Rightarrow> string" where
  "SanitizeString input =
     TrimSpace (concat (map EncodeRune
       (filter (\<lambda>r. \<not> (IsControl r \<and> r \<noteq> 0x0A \<and> r \<noteq> 0x09 \<and> r \<noteq> 0x0D)) (runes input))))"

subsection \<open>truncateText, GenerateExcerpt\<close>

text \<open>\<^verbatim>\<open>strings.LastIndex(s, " ")\<close>: the index of the last space, or -1.\<close>

definition LastIndex_space :: "string \<Rightarrow> int" where
  "LastIndex_space s =
     (if CHR '' '' \<in> set s
      then int (length s) - 1 - int (length (takeWhile (\<lambda>c. c \<noteq> CHR '' '') (rev s)))
      else -1)"

text \<open>
  \<^verbatim>\<open>truncateText\<close>. The lengths are \<^verbatim>\<open>int\<close>s; slicing \<^verbatim>\<open>text[:maxLength]\<close> with a
  negative \<^verbatim>\<open>maxLength\<close> panics, which is the result \<open>None\<close>.
\<close>

definition truncateText :: "string \<Rightarrow> int \<Rightarrow> string option" where
  "truncateText text maxLength =
     (if int (length text) \<le> maxLength then Some text
      else if maxLength < 0 then None
      else
        let truncated = take (nat maxLength) text;
            lastSpace = LastIndex_space truncated;
            truncated = (if lastSpace > 0 then take (nat lastSpace) text else truncated)
        in Some (truncated @ ''...''))"

text \<open>The class \<^verbatim>\<open>\s\<close> of the regexp syntax: tab, newline, form feed, carriage return, space.\<close>

definition is_regexp_space :: "rune \<Rightarrow> bool" where
  "is_regexp_space r = (r = 0x09 \<or> r = 0x0A \<or> r = 0x0C \<or> r = 0x0D \<or> r = 0x20)"

definition clean_content :: "string \<Rightarrow> string" where
  "clean_content content =
     (let cleaned = stripHTMLTags content;
          cleaned = map (\<lambda>c. if c = CHR 0x0A then CHR '' '' else c) cleaned;
          cleaned = replace_runs is_regexp_space '' '' (segments cleaned)
      in TrimSpace cleaned)"

definition GenerateExcerpt :: "string \<Rightarrow> int \<Rightarrow> string option" where
  "GenerateExcerpt content maxLength =
     truncateText (clean_content content) (if maxLength = 0 then 300 else maxLength)"

section \<open>strconv and math\<close>

datatype NumError = ErrSyntax | ErrRange

definition is_digit :: "char \<Rightarrow> bool" where
  "is_digit c = (0x30 \<le> (of_char c :: nat) \<and> (of_char c :: nat) \<le> 0x39)"

text \<open>
  The loop of \<^verbatim>\<open>strconv.ParseUint\<close> in base 10. A byte that is no digit is a syntax error;
  the range error is raised as soon as the value leaves the range, before the rest of the
  string is looked at. \<open>maxVal\<close> is \<^verbatim>\<open>1<<bitSize - 1\<close>, the cutoff is \<^verbatim>\<open>maxUint64/10 + 1\<close>.
\<close>

fun parse_uint_loop :: "nat \<Rightarrow> nat \<Rightarrow> string \<Rightarrow> nat \<times> NumError option" where
  "parse_uint_loop maxVal n [] = (n, None)"
| "parse_uint_loop maxVal n (c # cs) =
     (if \<not> is_digit c then (0, Some ErrSyntax)
      else if (2 ^ 64 - 1) div 10 + 1 \<le> n then (maxVal, Some ErrRange)
      else
        let n1 = n * 10 + (of_char c - 0x30)
        in if maxVal < n1 then (maxVal, Some ErrRange) else parse_uint_loop maxVal n1 cs)"

text \<open>\<^verbatim>\<open>strconv.ParseUint(s, 10, bitSize)\<close>; a \<open>bitSize\<close> of 0 stands for 64.\<close>

definition ParseUint :: "string \<Rightarrow> nat \<Rightarrow> nat \<times> NumError option" where
  "ParseUint s bitSize =
     (if s = [] then (0, Some ErrSyntax)
      else parse_uint_loop (2 ^ (if bitSize = 0 then 64 else bitSize) - 1) 0 s)"

text \<open>\<^verbatim>\<open>strconv.ParseInt(s, 10, 0)\<close>: the value is returned beside the error.\<close>

definition ParseInt :: "string \<Rightarrow> int \<times> NumError option" where
  "ParseInt s =
     (if s = [] then (0, Some ErrSyntax)
      else
        let neg = (hd s = CHR ''-'');
            s1 = (if hd s = CHR ''+'' \<or> hd s = CHR ''-'' then tl s else s);
            un = fst (ParseUint s1 0);
            err = snd (ParseUint s1 0)
        in if err = Some ErrSyntax then (0, Some ErrSyntax)
           else if \<not> neg \<and> 2 ^ 63 \<le> un then (2 ^ 63 - 1, Some ErrRange)
           else if neg \<and> 2 ^ 63 < un then (- (2 ^ 63), Some ErrRange)
           else (if neg then - int un else int un, None))"

text \<open>
  \<^verbatim>\<open>strconv.Atoi\<close>: \<^verbatim>\<open>ParseInt(s, 10, 0)\<close>; its loop for short strings gives the same
  value and the same error.
\<close>

definition Atoi :: "string \<Rightarrow> int \<times> NumError option" where
  "Atoi s = ParseInt s"

definition ParseBool :: "string \<Rightarrow> bool option" where
  "ParseBool str =
     (if str \<in> set [''1'', ''t'', ''T'', ''TRUE'', ''true'', ''True''] then Some True
      else if str \<in> set [''0'', ''f'', ''F'', ''FALSE'', ''false'', ''False''] then Some False
      else None)"

text \<open>\<^verbatim>\<open>strconv.FormatInt(i, 10)\<close>.\<close>

fun digits_of :: "nat \<Rightarrow> string" where
  "digits_of n =
     (if n < 10 then [char_of (0x30 + n)]
      else digits_of (n div 10) @ [char_of (0x30 + n mod 10)])"

declare digits_of.simps [simp del]

definition FormatInt :: "int \<Rightarrow> string" where
  "FormatInt i = (if i < 0 then CHR ''-'' # digits_of (nat (- i)) else digits_of (nat i))"

text \<open>
  \<^verbatim>\<open>float64\<close>. A finite double is the rational number it stands for. Every operation
  gives the exact result rounded to the nearest number with a 53 bit significand, ties to
  even (IEEE 754); the exponent range is left unbounded, since no value of this program
  comes near its ends. \<open>ilog2 x\<close> is the exponent of \<open>x\<close>: the \<open>e\<close> with
  \<open>2^e \<le> x < 2^(e+1)\<close>.
\<close>

fun bit_length :: "nat \<Rightarrow> nat" where
  "bit_length n = (if n = 0 then 0 else Suc (bit_length (n div 2)))"

declare bit_length.simps [simp del]

definition ilog2 :: "rat \<Rightarrow> int" where
  "ilog2 x =
     (if 1 \<le> x then int (bit_length (nat \<lfloor>x\<rfloor>)) - 1
      else - int (bit_length (nat (\<lceil>1 / x\<rceil> - 1))))"

definition round_half_even :: "rat \<Rightarrow> int" where
  "round_half_even y =
     (let f = \<lfloor>y\<rfloor>; d = y - of_int f
      in if d < 1 / 2 then f else if 1 / 2 < d then f + 1 else if even f then f else f + 1)"

definition f64_round :: "rat \<Rightarrow> rat" where
  "f64_round x =
     (if x = 0 then 0
      else let u = 2 powi (ilog2 \<bar>x\<bar> - 52) in of_int (round_half_even (x / u)) * u)"

text \<open>The conversion \<^verbatim>\<open>float64(n)\<close> of an integer, and the division of two doubles.\<close>

definition float64 :: "int \<Rightarrow> rat" where
  "float64 n = f64_round (of_int n)"

definition f64_div :: "rat \<Rightarrow> rat \<Rightarrow> rat" where
  "f64_div x y = f64_round (x / y)"

text \<open>\<^verbatim>\<open>math.Ceil\<close>, and the conversion \<^verbatim>\<open>int(x)\<close> of a double, which truncates.\<close>

definition math_Ceil :: "rat \<Rightarrow> rat" where
  "math_Ceil x = of_int \<lceil>x\<rceil>"

definition int_of_float64 :: "rat \<Rightarrow> int" where
  "int_of_float64 x = (if 0 \<le> x then \<lfloor>x\<rfloor> else \<lceil>x\<rceil>)"

text \<open>Arithmetic on \<^verbatim>\<open>int\<close> wraps around at 64 bits.\<close>

definition wrap_int64 :: "int \<Rightarrow> int" where
  "wrap_int64 x = (x + 2 ^ 63) mod 2 ^ 64 - 2 ^ 63"

subsection \<open>CalculateReadingTime\<close>

text \<open>
  \<^verbatim>\<open>strings.Fields\<close>: the maximal runs of runes that are not white space.
\<close>

function fields_of :: "(rune \<times> string) list \<Rightarrow> string list" where
  "fields_of xs =
     (case dropWhile (\<lambda>x. IsSpace (fst x)) xs of
        [] \<Rightarrow> []
      | y # ys \<Rightarrow>
          concat (map snd (takeWhile (\<lambda>x. \<not> IsSpace (fst x)) (y # ys)))
            # fields_of (dropWhile (\<lambda>x. \<not> IsSpace (fst x)) ys))"
  by pat_completeness auto
termination
proof (relation "measure length")
  show "wf (measure length)" by simp
next
  fix xs :: "(rune \<times> string) list" and y ys
  assume a: "dropWhile (\<lambda>x. IsSpace (fst x)) xs = y # ys"
  have "length (dropWhile (\<lambda>x. \<not> IsSpace (fst x)) ys) \<le> length ys"
    by (rule length_dropWhile_le)
  also have "length ys < length (y # ys)" by simp
  also have "length (y # ys) \<le> length xs"
    unfolding a[symmetric] by (rule length_dropWhile_le)
  finally show "(dropWhile (\<lambda>x. \<not> IsSpace (fst x)) ys, xs) \<in> measure length" by simp
qed

declare fields_of.simps [simp del]

definition Fields :: "string \<Rightarrow> string list" where
  "Fields s = fields_of (segments s)"

definition CalculateReadingTime :: "string \<Rightarrow> int" where
  "CalculateReadingTime content =
     (if content = [] then 0
      else
        let words = Fields (stripHTMLTags content);
            wordCount = int (length words);
            readingTime = int_of_float64 (math_Ceil (f64_div (float64 wordCount) 200))
        in if readingTime < 1 then 1 else readingTime)"


section \<open>models: Blog, the requests and the responses\<close>

text \<open>A \<^verbatim>\<open>time.Time\<close> is the instant in seconds since the epoch, which is all \<^verbatim>\<open>Unix()\<close> reads.\<close>

type_synonym time = int

record Blog =
  ID :: nat
  Title :: string
  Slug :: string
  Content :: string
  Excerpt :: string
  Author :: string
  Published :: bool
  Featured :: bool
  Tags :: string
  MetaTitle :: string
  MetaDesc :: string
  ReadingTime :: int
  ViewCount :: int
  CreatedAt :: time
  UpdatedAt :: time
  PublishedAt :: "time option"

record BlogResponse =
  r_ID :: nat
  r_Title :: string
  r_Slug :: string
  r_Content :: string
  r_Excerpt :: string
  r_Author :: string
  r_Published :: bool
  r_Featured :: bool
  r_Tags :: "string list"
  r_MetaTitle :: string
  r_MetaDesc :: string
  r_ReadingTime :: int
  r_ViewCount :: int
  r_CreatedAt :: time
  r_UpdatedAt :: time
  r_PublishedAt :: "time option"

record BlogListResponse =
  Blogs :: "BlogResponse list"
  Total :: int
  Page :: int
  Limit :: int
  TotalPages :: int
  HasNext :: bool
  HasPrev :: bool

record CreateBlogRequest =
  c_Title :: string
  c_Content :: string
  c_Excerpt :: string
  c_Author :: string
  c_Published :: bool
  c_Featured :: bool
  c_Tags :: string
  c_MetaTitle :: string
  c_MetaDesc :: string

text \<open>The fields of an update are pointers: \<open>None\<close> is a field absent from the body.\<close>

record UpdateBlogRequest =
  u_Title :: "string option"
  u_Content :: "string option"
  u_Excerpt :: "string option"
  u_Author :: "string option"
  u_Published :: "bool option"
  u_Featured :: "bool option"
  u_Tags :: "string option"
  u_MetaTitle :: "string option"
  u_MetaDesc :: "string option"

text \<open>
  \<^verbatim>\<open>BeforeCreate\<close>. \<open>tbl\<close> is the Unicode table of \<open>GenerateSlug\<close>, \<open>now\<close> is what
  \<^verbatim>\<open>time.Now()\<close> gives. The hook returns no error.
\<close>

definition BeforeCreate :: "(rune \<Rightarrow> rune) \<Rightarrow> time \<Rightarrow> Blog \<Rightarrow> Blog" where
  "BeforeCreate tbl now b =
     (let b = (if Slug b = [] then b\<lparr>Slug := GenerateSlug tbl (Title b)\<rparr> else b);
          b = b\<lparr>ReadingTime := CalculateReadingTime (Content b)\<rparr>
      in if Published b \<and> PublishedAt b = None then b\<lparr>PublishedAt := Some now\<rparr> else b)"

text \<open>
  \<^verbatim>\<open>scope.HasColumn\<close> of gorm: the model has a field of that name or column name.
\<close>

definition HasColumn :: "string \<Rightarrow> bool" where
  "HasColumn column =
     (column \<in> set [''ID'', ''Title'', ''Slug'', ''Content'', ''Excerpt'', ''Author'',
         ''Published'', ''Featured'', ''Tags'', ''MetaTitle'', ''MetaDesc'', ''ReadingTime'',
         ''ViewCount'', ''CreatedAt'', ''UpdatedAt'', ''PublishedAt'',
         ''id'', ''title'', ''slug'', ''content'', ''excerpt'', ''author'', ''published'',
         ''featured'', ''tags'', ''meta_title'', ''meta_desc'', ''reading_time'',
         ''view_count'', ''created_at'', ''updated_at'', ''published_at''])"

definition BeforeUpdate :: "time \<Rightarrow> Blog \<Rightarrow> Blog" where
  "BeforeUpdate now b =
     (let b = (if HasColumn ''content''
               then b\<lparr>ReadingTime := CalculateReadingTime (Content b)\<rparr> else b)
      in if Published b \<and> PublishedAt b = None then b\<lparr>PublishedAt := Some now\<rparr>
         else if \<not> Published b then b\<lparr>PublishedAt := None\<rparr>
         else b)"

text \<open>\<^verbatim>\<open>strings.Split(s, ",")\<close>.\<close>

fun Split_comma :: "string \<Rightarrow> string list" where
  "Split_comma [] = [[]]"
| "Split_comma (c # s) =
     (if c = CHR '','' then [] # Split_comma s
      else (case Split_comma s of x # xs \<Rightarrow> (c # x) # xs | [] \<Rightarrow> [[c]]))"

definition ToResponse :: "Blog \<Rightarrow> bool \<Rightarrow> BlogResponse" where
  "ToResponse b includeContent =
     (let tags = (if Tags b \<noteq> [] then map TrimSpace (Split_comma (Tags b)) else []);
          response = \<lparr>r_ID = ID b, r_Title = Title b, r_Slug = Slug b, r_Content = [],
            r_Excerpt = Excerpt b, r_Author = Author b, r_Published = Published b,
            r_Featured = Featured b, r_Tags = tags, r_MetaTitle = [], r_MetaDesc = [],
            r_ReadingTime = ReadingTime b, r_ViewCount = ViewCount b,
            r_CreatedAt = CreatedAt b, r_UpdatedAt = UpdatedAt b,
            r_PublishedAt = PublishedAt b\<rparr>
      in if includeContent
         then response\<lparr>r_Content := Content b, r_MetaTitle := MetaTitle b,
                r_MetaDesc := MetaDesc b\<rparr>
         else response)"

section \<open>The database behind gorm\<close>

text \<open>
  The table \<^verbatim>\<open>blogs\<close> is the list of its rows and the next value of the key sequence.
  What depends on the SQL dialect in use (PostgreSQL, or SQLite as the fallback) is a
  parameter: the functions \<^verbatim>\<open>LOWER\<close> and \<^verbatim>\<open>LIKE\<close>, and the check of a row against the
  declared column sizes and the encoding, which PostgreSQL makes and SQLite does not. The
  table of \<^verbatim>\<open>unicode.ToLower\<close> is carried along with them. A statement fails on a
  constraint, or because the database refuses the text bound to one of its parameters:
  \<open>sql_rejects\<close> says for which texts it does (PostgreSQL refuses a text that holds a
  NUL byte or is not well-formed in the encoding of the database, SQLite refuses none). A
  database that is down is not modelled.
\<close>

record env =
  unicode_lower :: "rune \<Rightarrow> rune"
  sql_LOWER :: "string \<Rightarrow> string"
  sql_LIKE :: "string \<Rightarrow> string \<Rightarrow> bool"
  sql_accepts :: "Blog \<Rightarrow> bool"
  sql_rejects :: "string \<Rightarrow> bool"

record store =
  rows :: "Blog list"
  next_id :: nat

text \<open>
  \<^verbatim>\<open>db.Create(&blog)\<close>: the hook \<^verbatim>\<open>BeforeCreate\<close> runs first, then gorm stamps the (zero)
  creation and update times, and the INSERT writes every field of the value. The column
  \<^verbatim>\<open>slug\<close> is declared unique. \<open>None\<close> is the error of a refused INSERT.
\<close>

definition db_Create :: "env \<Rightarrow> time \<Rightarrow> store \<Rightarrow> Blog \<Rightarrow> (store \<times> Blog) option" where
  "db_Create E now db blog =
     (let b = BeforeCreate (unicode_lower E) now blog;
          b = b\<lparr>CreatedAt := now, UpdatedAt := now\<rparr>;
          b = b\<lparr>ID := next_id db\<rparr>
      in if list_ex (\<lambda>r. Slug r = Slug b) (rows db) \<or> \<not> sql_accepts E b then None
         else Some (db\<lparr>rows := rows db @ [b], next_id := Suc (next_id db)\<rparr>, b))"

text \<open>
  \<^verbatim>\<open>First\<close>: the matching row with the least key. \<open>None\<close> is \<^verbatim>\<open>RecordNotFound\<close>.
\<close>

definition db_First :: "(Blog \<Rightarrow> bool) \<Rightarrow> store \<Rightarrow> Blog option" where
  "db_First cond db =
     (case sort_key ID (filter cond (rows db)) of [] \<Rightarrow> None | b # _ \<Rightarrow> Some b)"

text \<open>
  The values of the map passed to \<^verbatim>\<open>Updates\<close>, and the assignment of one entry to the
  field of that column name.
\<close>

datatype column_value = VString string | VBool bool | VTime time

fun set_column :: "Blog \<Rightarrow> string \<times> column_value \<Rightarrow> Blog" where
  "set_column b (k, VString v) =
     (if k = ''title'' then b\<lparr>Title := v\<rparr>
      else if k = ''slug'' then b\<lparr>Slug := v\<rparr>
      else if k = ''content'' then b\<lparr>Content := v\<rparr>
      else if k = ''excerpt'' then b\<lparr>Excerpt := v\<rparr>
      else if k = ''author'' then b\<lparr>Author := v\<rparr>
      else if k = ''tags'' then b\<lparr>Tags := v\<rparr>
      else if k = ''meta_title'' then b\<lparr>MetaTitle := v\<rparr>
      else if k = ''meta_desc'' then b\<lparr>MetaDesc := v\<rparr>
      else b)"
| "set_column b (k, VBool v) =
     (if k = ''published'' then b\<lparr>Published := v\<rparr>
      else if k = ''featured'' then b\<lparr>Featured := v\<rparr>
      else b)"
| "set_column b (k, VTime v) =
     (if k = ''updated_at'' then b\<lparr>UpdatedAt := v\<rparr> else b)"

text \<open>
  \<^verbatim>\<open>db.Model(&blog).Updates(updates)\<close> with a map, as gorm (v1, \<^verbatim>\<open>jinzhu/gorm\<close>) runs
  it. The callback \<^verbatim>\<open>assign_updating_attributes\<close> sets the fields of the value from
  the map and keeps the map as the attributes to write; an empty map ends the update
  there. Then \<^verbatim>\<open>BeforeUpdate\<close> runs on the value, the update time is added to the
  attributes, and the UPDATE statement sets exactly the attributes on the row with the
  key of the value. What the hook assigns to fields of the value is therefore not written,
  unless the hook had used \<^verbatim>\<open>scope.SetColumn\<close>. The result is the new table and the value
  as the hook left it; \<open>None\<close> is the error of a refused UPDATE.
\<close>

definition db_Updates ::
  "env \<Rightarrow> time \<Rightarrow> store \<Rightarrow> Blog \<Rightarrow> (string \<times> column_value) list \<Rightarrow> (store \<times> Blog) option"
where
  "db_Updates E now db blog updates =
     (if updates = [] then Some (db, blog)
      else
        let value = BeforeUpdate now (foldl set_column blog updates);
            attrs = updates @ [(''updated_at'', VTime now)];
            value = value\<lparr>UpdatedAt := now\<rparr>;
            rows1 = map (\<lambda>r. if ID r = ID blog then foldl set_column r attrs else r) (rows db)
        in if list_ex (\<lambda>r. ID r = ID blog \<and>
                (\<not> sql_accepts E r
                 \<or> list_ex (\<lambda>r2. ID r2 \<noteq> ID blog \<and> Slug r2 = Slug r) rows1)) rows1
           then None
           else Some (db\<lparr>rows := rows1\<rparr>, value))"

section \<open>handlers/blog.go\<close>

text \<open>
  The query string of a request maps a key to its first value. \<^verbatim>\<open>c.Query\<close> gives the
  empty string for a key that is absent, \<^verbatim>\<open>c.DefaultQuery\<close> the default.
\<close>

definition Query :: "(string \<rightharpoonup> string) \<Rightarrow> string \<Rightarrow> string" where
  "Query q key = (case q key of Some v \<Rightarrow> v | None \<Rightarrow> [])"

definition DefaultQuery :: "(string \<rightharpoonup> string) \<Rightarrow> string \<Rightarrow> string \<Rightarrow> string" where
  "DefaultQuery q key defaultValue = (case q key of Some v \<Rightarrow> v | None \<Rightarrow> defaultValue)"

text \<open>
  The conditions that \<^verbatim>\<open>GetBlogs\<close> adds to the query with \<^verbatim>\<open>Where\<close>, one after the
  other, as a filter of the rows.
\<close>

definition where_published :: "string \<Rightarrow> Blog list \<Rightarrow> Blog list" where
  "where_published publishedParam q =
     (case ParseBool publishedParam of
        Some published \<Rightarrow> filter (\<lambda>b. Published b = published) q
      | None \<Rightarrow> q)"

definition where_featured :: "string \<Rightarrow> Blog list \<Rightarrow> Blog list" where
  "where_featured featuredParam q =
     (if featuredParam \<noteq> [] then
        (case ParseBool featuredParam of
           Some featured \<Rightarrow> filter (\<lambda>b. Featured b = featured) q
         | None \<Rightarrow> q)
      else q)"

definition where_search :: "env \<Rightarrow> string \<Rightarrow> Blog list \<Rightarrow> Blog list" where
  "where_search E search q =
     (if search \<noteq> [] then
        (let searchTerm = ''%'' @ ToLower (unicode_lower E) search @ ''%''
         in filter (\<lambda>b. sql_LIKE E (sql_LOWER E (Title b)) searchTerm
                       \<or> sql_LIKE E (sql_LOWER E (Content b)) searchTerm
                       \<or> sql_LIKE E (sql_LOWER E (Excerpt b)) searchTerm
                       \<or> sql_LIKE E (sql_LOWER E (Tags b)) searchTerm) q)
      else q)"

text \<open>
  \<^verbatim>\<open>Order("created_at DESC").Offset(offset).Limit(limit)\<close>. gorm leaves a negative offset
  or limit out of the statement. Rows with equal creation times come in the order the
  database likes; here in the order of the table.
\<close>

definition order_offset_limit :: "int \<Rightarrow> int \<Rightarrow> Blog list \<Rightarrow> Blog list" where
  "order_offset_limit offset limit q =
     (let q = rev (sort_key CreatedAt (rev q));
          q = (if 0 \<le> offset then drop (nat offset) q else q)
      in if 0 \<le> limit then take (nat limit) q else q)"

text \<open>
  \<^verbatim>\<open>GetBlogs\<close> gives the body of the answer 200. The answer is 500, with no listing,
  when the count or the fetch fails, as they do when the database refuses the search term.
\<close>

definition GetBlogs :: "env \<Rightarrow> store \<Rightarrow> (string \<rightharpoonup> string) \<Rightarrow> BlogListResponse" where
  "GetBlogs E db query =
     (let page = fst (Atoi (DefaultQuery query ''page'' ''1''));
          limit = fst (Atoi (DefaultQuery query ''limit'' ''10''));
          search = Query query ''search'';
          featuredParam = Query query ''featured'';
          publishedParam = DefaultQuery query ''published'' ''true'';
          page = (if page < 1 then 1 else page);
          limit = (if limit < 1 \<or> 100 < limit then 10 else limit);
          q = where_search E search
                (where_featured featuredParam (where_published publishedParam (rows db)));
          total = int (length q);
          offset = wrap_int64 ((page - 1) * limit);
          totalPages = int_of_float64 (math_Ceil (f64_div (float64 total) (float64 limit)));
          blogs = order_offset_limit offset limit q;
          blogResponses = map (\<lambda>blog. ToResponse blog False) blogs
      in \<lparr>Blogs = blogResponses, Total = total, Page = page, Limit = limit,
           TotalPages = totalPages, HasNext = (page < totalPages), HasPrev = (1 < page)\<rparr>)"


text \<open>
  \<^verbatim>\<open>CreateBlog\<close>. The body is \<open>None\<close> when \<^verbatim>\<open>ShouldBindJSON\<close> fails on it: JSON that does
  not parse or does not fit the types of the fields. gin validates a bound value by the
  struct tags named \<^verbatim>\<open>binding\<close>; \<^verbatim>\<open>CreateBlogRequest\<close> carries its constraints in tags
  named \<^verbatim>\<open>validate\<close>, which nothing reads, so every body of the right shape binds. The
  slug counts as taken unless the lookup ends in \<^verbatim>\<open>RecordNotFound\<close>, so also when the
  lookup fails. A panic of \<open>GenerateExcerpt\<close> would be answered with 500 by
  \<^verbatim>\<open>gin.Recovery\<close>.
\<close>

definition CreateBlog ::
  "env \<Rightarrow> time \<Rightarrow> store \<Rightarrow> CreateBlogRequest option \<Rightarrow> nat \<times> BlogResponse option \<times> store"
where
  "CreateBlog E now db body =
     (case body of
        None \<Rightarrow> (400, None, db)
      | Some req \<Rightarrow>
          let slug = GenerateSlug (unicode_lower E) (c_Title req);
              slug = (if sql_rejects E slug \<or> db_First (\<lambda>b. Slug b = slug) db \<noteq> None
                      then slug @ ''-'' @ FormatInt now else slug)
          in case (if c_Excerpt req = [] then GenerateExcerpt (c_Content req) 300
                   else Some (c_Excerpt req)) of
               None \<Rightarrow> (500, None, db)
             | Some excerpt \<Rightarrow>
                 let blog = \<lparr>ID = 0,
                       Title = SanitizeString (c_Title req),
                       Slug = slug,
                       Content = SanitizeString (c_Content req),
                       Excerpt = SanitizeString excerpt,
                       Author = SanitizeString (c_Author req),
                       Published = c_Published req,
                       Featured = c_Featured req,
                       Tags = SanitizeString (c_Tags req),
                       MetaTitle = SanitizeString (c_MetaTitle req),
                       MetaDesc = SanitizeString (c_MetaDesc req),
                       ReadingTime = 0, ViewCount = 0, CreatedAt = 0, UpdatedAt = 0,
                       PublishedAt = None\<rparr>
                 in case db_Create E now db blog of
                      None \<Rightarrow> (500, None, db)
                    | Some (db1, blog1) \<Rightarrow> (201, Some (ToResponse blog1 True), db1))"

text \<open>The map \<^verbatim>\<open>updates\<close> that \<^verbatim>\<open>UpdateBlog\<close> builds from the fields that are present.\<close>

definition build_updates :: "env \<Rightarrow> UpdateBlogRequest \<Rightarrow> (string \<times> column_value) list" where
  "build_updates E req =
     (case u_Title req of
        Some v \<Rightarrow> [(''title'', VString (SanitizeString v)),
                   (''slug'', VString (GenerateSlug (unicode_lower E) v))]
      | None \<Rightarrow> [])
     @ (case u_Content req of Some v \<Rightarrow> [(''content'', VString (SanitizeString v))] | None \<Rightarrow> [])
     @ (case u_Excerpt req of Some v \<Rightarrow> [(''excerpt'', VString (SanitizeString v))] | None \<Rightarrow> [])
     @ (case u_Author req of Some v \<Rightarrow> [(''author'', VString (SanitizeString v))] | None \<Rightarrow> [])
     @ (case u_Published req of Some v \<Rightarrow> [(''published'', VBool v)] | None \<Rightarrow> [])
     @ (case u_Featured req of Some v \<Rightarrow> [(''featured'', VBool v)] | None \<Rightarrow> [])
     @ (case u_Tags req of Some v \<Rightarrow> [(''tags'', VString (SanitizeString v))] | None \<Rightarrow> [])
     @ (case u_MetaTitle req of
          Some v \<Rightarrow> [(''meta_title'', VString (SanitizeString v))] | None \<Rightarrow> [])
     @ (case u_MetaDesc req of
          Some v \<Rightarrow> [(''meta_desc'', VString (SanitizeString v))] | None \<Rightarrow> [])"

text \<open>
  \<^verbatim>\<open>UpdateBlog\<close>: the path parameter \<open>id\<close>, then the body as for \<open>CreateBlog\<close>. The
  value that \<^verbatim>\<open>Updates\<close> leaves in \<^verbatim>\<open>blog\<close> is overwritten by the second \<^verbatim>\<open>First\<close>.
\<close>

definition UpdateBlog ::
  "env \<Rightarrow> time \<Rightarrow> store \<Rightarrow> string \<Rightarrow> UpdateBlogRequest option
     \<Rightarrow> nat \<times> BlogResponse option \<times> store"
where
  "UpdateBlog E now db idParam body =
     (if snd (ParseUint idParam 32) \<noteq> None then (400, None, db)
      else
        let id = fst (ParseUint idParam 32)
        in case body of
             None \<Rightarrow> (400, None, db)
           | Some req \<Rightarrow>
               (case db_First (\<lambda>b. ID b = id) db of
                  None \<Rightarrow> (404, None, db)
                | Some blog \<Rightarrow>
                    (case db_Updates E now db blog (build_updates E req) of
                       None \<Rightarrow> (500, None, db)
                     | Some (db1, blog1) \<Rightarrow>
                         (case db_First (\<lambda>b. ID b = id) db1 of
                            None \<Rightarrow> (500, None, db1)
                          | Some blog2 \<Rightarrow> (200, Some (ToResponse blog2 True), db1)))))"


subsection \<open>Predicates used in the statements\<close>

text \<open>A byte of \<^verbatim>\<open>[a-z0-9-]\<close>.\<close>

definition slug_char :: "char \<Rightarrow> bool" where
  "slug_char c = (is_az09 (of_char c) \<or> c = CHR ''-'')"

text \<open>Every rune of \<^verbatim>\<open>[a-z0-9]\<close> was decoded from the one byte that it is.\<close>

definition az09_single :: "(rune \<times> string) list \<Rightarrow> bool" where
  "az09_single xs = list_all (\<lambda>x. \<not> is_az09 (fst x) \<or> snd x = [char_of (fst x)]) xs"

text \<open>A Unicode scalar value: a code point that is not a surrogate.\<close>

definition valid_rune :: "rune \<Rightarrow> bool" where
  "valid_rune r = (r < 0xD800 \<or> (0xE000 \<le> r \<and> r \<le> 0x10FFFF))"

text \<open>The string that writing the runes one after the other gives.\<close>

definition encode_runes :: "rune list \<Rightarrow> string" where
  "encode_runes rs = concat (map EncodeRune rs)"

text \<open>The first, or the last, rune of a string is white space.\<close>

definition starts_with_space :: "string \<Rightarrow> bool" where
  "starts_with_space s = (case runes s of [] \<Rightarrow> False | r # _ \<Rightarrow> IsSpace r)"

definition ends_with_space :: "string \<Rightarrow> bool" where
  "ends_with_space s = (case rev (runes s) of [] \<Rightarrow> False | r # _ \<Rightarrow> IsSpace r)"

text \<open>Dropping the white space runes at both ends of a sequence of runes.\<close>

definition trim_runes :: "rune list \<Rightarrow> rune list" where
  "trim_runes rs = rev (dropWhile IsSpace (rev (dropWhile IsSpace rs)))"

text \<open>
  The excerpt \<open>e\<close> is a prefix of the cleaned text that stops at its end or just before a
  space, followed by the ellipsis: the cut splits no word.
\<close>

definition cut_before_space :: "string \<Rightarrow> string \<Rightarrow> bool" where
  "cut_before_space cleaned e =
     list_ex (\<lambda>k. e = take k cleaned @ ''...'' \<and> (k = length cleaned \<or> cleaned ! k = CHR '' ''))
       [0..<Suc (length cleaned)]"

text \<open>
  Names for what \<open>GetBlogs\<close> computes on its way: the page and the limit in effect, and
  the rows that pass the conditions of the query.
\<close>

definition page_of :: "(string \<rightharpoonup> string) \<Rightarrow> int" where
  "page_of query =
     (if fst (Atoi (DefaultQuery query ''page'' ''1'')) < 1 then 1
      else fst (Atoi (DefaultQuery query ''page'' ''1'')))"

definition limit_of :: "(string \<rightharpoonup> string) \<Rightarrow> int" where
  "limit_of query =
     (if fst (Atoi (DefaultQuery query ''limit'' ''10'')) < 1
         \<or> 100 < fst (Atoi (DefaultQuery query ''limit'' ''10'')) then 10
      else fst (Atoi (DefaultQuery query ''limit'' ''10'')))"

definition matching_rows :: "env \<Rightarrow> store \<Rightarrow> (string \<rightharpoonup> string) \<Rightarrow> Blog list" where
  "matching_rows E db query =
     where_search E (Query query ''search'')
       (where_featured (Query query ''featured'')
         (where_published (DefaultQuery query ''published'' ''true'') (rows db)))"

text \<open>
  Whether a parameter is an optionally signed, non-empty sequence of decimal digits.
\<close>

definition is_decimal :: "string \<Rightarrow> bool" where
  "is_decimal s =
     (let d = (if s \<noteq> [] \<and> (hd s = CHR ''+'' \<or> hd s = CHR ''-'') then tl s else s)
      in d \<noteq> [] \<and> list_all is_digit d)"

text \<open>The rows that pass the conditions of the query other than the one on \<^verbatim>\<open>published\<close>.\<close>

definition unfiltered_rows :: "env \<Rightarrow> store \<Rightarrow> (string \<rightharpoonup> string) \<Rightarrow> Blog list" where
  "unfiltered_rows E db query =
     where_search E (Query query ''search'') (where_featured (Query query ''featured'') (rows db))"

text \<open>
  An environment for the examples: the \<^verbatim>\<open>LOWER\<close> and \<^verbatim>\<open>LIKE\<close> of SQLite on text that is
  well-formed UTF-8 without a NUL byte, no check of column sizes, no text refused, and a
  Unicode table that leaves the runes above ASCII alone. SQLite folds the case of the
  ASCII letters only. Its \<^verbatim>\<open>LIKE\<close> goes by characters: \<^verbatim>\<open>%\<close> stands for any sequence of
  characters and \<^verbatim>\<open>_\<close> for one character, which is a byte, or a byte from \<open>0xC0\<close> on
  together with the continuation bytes that follow it.
\<close>

definition ascii_lower :: "char \<Rightarrow> char" where
  "ascii_lower c =
     (if 0x41 \<le> (of_char c :: nat) \<and> (of_char c :: nat) \<le> 0x5A
      then char_of ((of_char c :: nat) + 0x20) else c)"

definition is_continuation :: "char \<Rightarrow> bool" where
  "is_continuation c = (0x80 \<le> (of_char c :: nat) \<and> (of_char c :: nat) < 0xC0)"

definition after_character :: "char \<Rightarrow> string \<Rightarrow> string" where
  "after_character c s = (if 0xC0 \<le> (of_char c :: nat) then dropWhile is_continuation s else s)"

function sqlite_like :: "string \<Rightarrow> string \<Rightarrow> bool" where
  "sqlite_like [] [] = True"
| "sqlite_like (c # s) [] = False"
| "sqlite_like [] (p # ps) = (p = CHR ''%'' \<and> sqlite_like [] ps)"
| "sqlite_like (c # s) (p # ps) =
     (if p = CHR ''%''
      then sqlite_like (c # s) ps \<or> sqlite_like (after_character c s) (p # ps)
      else if p = CHR ''_'' then sqlite_like (after_character c s) ps
      else ascii_lower c = ascii_lower p \<and> sqlite_like s ps)"
  by pat_completeness auto
termination
  by (relation "measure (\<lambda>(s, p). length s + length p)")
     (auto simp: less_Suc_eq_le length_dropWhile_le after_character_def le_SucI)

definition ascii_env :: env where
  "ascii_env =
     \<lparr>unicode_lower = (\<lambda>r. r), sql_LOWER = map ascii_lower, sql_LIKE = sqlite_like,
      sql_accepts = (\<lambda>b. True), sql_rejects = (\<lambda>s. False)\<rparr>"

text \<open>A small table used to run the handlers on concrete requests.\<close>

definition example_post :: "nat \<Rightarrow> bool \<Rightarrow> Blog" where
  "example_post i published =
     \<lparr>ID = i, Title = ''Post'', Slug = ''post-'' @ digits_of i, Content = ''Some content'',
      Excerpt = ''Some'', Author = ''Ann'', Published = published, Featured = False,
      Tags = ''a, b'', MetaTitle = ''Meta'', MetaDesc = ''Desc'', ReadingTime = 1,
      ViewCount = 0, CreatedAt = int i, UpdatedAt = int i,
      PublishedAt = (if published then Some (int i) else None)\<rparr>"

definition example_db :: store where
  "example_db =
     \<lparr>rows = [example_post 1 True, example_post 2 False, example_post 3 True,
              example_post 4 True],
      next_id = 5\<rparr>"

text \<open>The maximal runs of runes of \<^verbatim>\<open>[a-z0-9]\<close> in a text, in order.\<close>

function az09_runs :: "rune list \<Rightarrow> rune list list" where
  "az09_runs rs =
     (case dropWhile (\<lambda>r. \<not> is_az09 r) rs of
        [] \<Rightarrow> []
      | r # rs' \<Rightarrow> (r # takeWhile is_az09 rs') # az09_runs (dropWhile is_az09 rs'))"
  by pat_completeness auto
termination
proof (relation "measure length")
  show "wf (measure length)" by simp
next
  fix rs :: "rune list" and r rs'
  assume "dropWhile (\<lambda>r. \<not> is_az09 r) rs = r # rs'"
  then have "Suc (length rs') \<le> length rs"
    by (metis length_Cons length_dropWhile_le)
  moreover have "length (dropWhile is_az09 rs') \<le> length rs'" by (rule length_dropWhile_le)
  ultimately show "(dropWhile is_az09 rs', rs) \<in> measure length" by simp
qed

declare az09_runs.simps [simp del]

text \<open>Words joined by single hyphens, and the words of a title in lower case.\<close>

fun join_hyphen :: "string list \<Rightarrow> string" where
  "join_hyphen [] = []"
| "join_hyphen [w] = w"
| "join_hyphen (w # v # ws) = w @ ''-'' @ join_hyphen (v # ws)"

definition slug_words :: "(rune \<Rightarrow> rune) \<Rightarrow> string \<Rightarrow> string list" where
  "slug_words tbl title = map (map char_of) (az09_runs (runes (ToLower tbl title)))"






text \<open>
  Requests for the examples: a body whose content is shorter than 10 characters, a body
  whose required fields are empty, a body that passes every declared constraint, and an
  update of the published flag alone.
\<close>

definition empty_store :: store where
  "empty_store = \<lparr>rows = [], next_id = 1\<rparr>"

definition short_request :: CreateBlogRequest where
  "short_request =
     \<lparr>c_Title = ''Hi'', c_Content = ''short'', c_Excerpt = [], c_Author = ''Bob'',
      c_Published = False, c_Featured = False, c_Tags = [], c_MetaTitle = [],
      c_MetaDesc = []\<rparr>"

definition blank_request :: CreateBlogRequest where
  "blank_request =
     \<lparr>c_Title = [], c_Content = [], c_Excerpt = [], c_Author = [],
      c_Published = False, c_Featured = False, c_Tags = [], c_MetaTitle = [],
      c_MetaDesc = []\<rparr>"

definition post_request :: "bool \<Rightarrow> CreateBlogRequest" where
  "post_request published =
     \<lparr>c_Title = ''Hello World'', c_Content = ''Some longer content'', c_Excerpt = [],
      c_Author = ''Ann'', c_Published = published, c_Featured = False, c_Tags = [],
      c_MetaTitle = [], c_MetaDesc = []\<rparr>"

definition set_published :: "bool \<Rightarrow> UpdateBlogRequest" where
  "set_published published =
     \<lparr>u_Title = None, u_Content = None, u_Excerpt = None, u_Author = None,
      u_Published = Some published, u_Featured = None, u_Tags = None, u_MetaTitle = None,
      u_MetaDesc = None\<rparr>"

definition store_after :: "nat \<times> BlogResponse option \<times> store \<Rightarrow> store" where
  "store_after answer = snd (snd answer)"

text \<open>The number that a string of digits writes, and the number of a signed decimal.\<close>

definition digits_value :: "string \<Rightarrow> nat" where
  "digits_value cs = foldl (\<lambda>n c. n * 10 + (of_char c - 0x30)) 0 cs"

definition decimal_value :: "string \<Rightarrow> int" where
  "decimal_value s =
     (if s \<noteq> [] \<and> hd s = CHR ''-'' then - int (digits_value (tl s))
      else if s \<noteq> [] \<and> hd s = CHR ''+'' then int (digits_value (tl s))
      else int (digits_value s))"

section \<open>Verified properties\<close>

subsection \<open>UTF-8 decoding\<close>

lemma Decode_1:
  "s \<noteq> [] \<Longrightarrow> byte_at s 0 < 0x80 \<Longrightarrow> DecodeRuneInString s = (byte_at s 0, 1)"
  by (simp add: DecodeRuneInString_def)

lemma Decode_bad:
  "s \<noteq> [] \<Longrightarrow> 0x80 \<le> byte_at s 0 \<Longrightarrow> byte_at s 0 < 0xC2 \<or> 0xF4 < byte_at s 0 \<Longrightarrow>
     DecodeRuneInString s = (RuneError, 1)"
  by (simp add: DecodeRuneInString_def)

lemma Decode_2:
  "s \<noteq> [] \<Longrightarrow> 0xC2 \<le> byte_at s 0 \<Longrightarrow> byte_at s 0 < 0xE0 \<Longrightarrow>
     DecodeRuneInString s =
       (if length s < 2 \<or> byte_at s 1 < 0x80 \<or> 0xBF < byte_at s 1 then (RuneError, 1)
        else ((byte_at s 0 mod 32) * 64 + byte_at s 1 mod 64, 2))"
  by (simp add: DecodeRuneInString_def Let_def)

lemma Decode_3:
  "s \<noteq> [] \<Longrightarrow> 0xE0 \<le> byte_at s 0 \<Longrightarrow> byte_at s 0 < 0xF0 \<Longrightarrow>
     DecodeRuneInString s =
       (if length s < 3
           \<or> byte_at s 1 < (if byte_at s 0 = 0xE0 then 0xA0 else 0x80)
           \<or> (if byte_at s 0 = 0xED then 0x9F else 0xBF) < byte_at s 1
           \<or> byte_at s 2 < 0x80 \<or> 0xBF < byte_at s 2 then (RuneError, 1)
        else ((byte_at s 0 mod 16) * 4096 + (byte_at s 1 mod 64) * 64 + byte_at s 2 mod 64, 3))"
  by (simp add: DecodeRuneInString_def Let_def)

lemma Decode_4:
  "s \<noteq> [] \<Longrightarrow> 0xF0 \<le> byte_at s 0 \<Longrightarrow> byte_at s 0 \<le> 0xF4 \<Longrightarrow>
     DecodeRuneInString s =
       (if length s < 4
           \<or> byte_at s 1 < (if byte_at s 0 = 0xF0 then 0x90 else 0x80)
           \<or> (if byte_at s 0 = 0xF4 then 0x8F else 0xBF) < byte_at s 1
           \<or> byte_at s 2 < 0x80 \<or> 0xBF < byte_at s 2
           \<or> byte_at s 3 < 0x80 \<or> 0xBF < byte_at s 3 then (RuneError, 1)
        else ((byte_at s 0 mod 8) * 262144 + (byte_at s 1 mod 64) * 4096
                + (byte_at s 2 mod 64) * 64 + byte_at s 3 mod 64, 4))"
  by (simp add: DecodeRuneInString_def Let_def)

lemma Decode_cases:
  assumes "s \<noteq> []"
  obtains "byte_at s 0 < 0x80"
  | "0x80 \<le> byte_at s 0" "byte_at s 0 < 0xC2 \<or> 0xF4 < byte_at s 0"
  | "0xC2 \<le> byte_at s 0" "byte_at s 0 < 0xE0"
  | "0xE0 \<le> byte_at s 0" "byte_at s 0 < 0xF0"
  | "0xF0 \<le> byte_at s 0" "byte_at s 0 \<le> 0xF4"
  by linarith


lemma mod_range:
  fixes a :: nat
  assumes "k * m \<le> a" "a < k * m + m"
  shows "a mod m = a - k * m"
proof -
  have "a = (a - k * m) + k * m" using assms by simp
  then have "a mod m = (a - k * m) mod m" by (metis mod_mult_self1)
  also have "\<dots> = a - k * m" using assms by simp
  finally show ?thesis .
qed

lemma cont_mod: "0x80 \<le> b \<Longrightarrow> b \<le> 0xBF \<Longrightarrow> b mod 64 = b - (0x80::nat)"
  using mod_range[of 2 64 b] by simp

lemma lead2_mod: "0xC2 \<le> a \<Longrightarrow> a < 0xE0 \<Longrightarrow> a mod 32 = a - (0xC0::nat)"
  using mod_range[of 6 32 a] by simp

lemma lead3_mod: "0xE0 \<le> a \<Longrightarrow> a < 0xF0 \<Longrightarrow> a mod 16 = a - (0xE0::nat)"
  using mod_range[of 14 16 a] by simp

lemma lead4_mod: "0xF0 \<le> a \<Longrightarrow> a \<le> 0xF4 \<Longrightarrow> a mod 8 = a - (0xF0::nat)"
  using mod_range[of 30 8 a] by simp

lemma Decode_ascii:
  assumes "s \<noteq> []" "fst (DecodeRuneInString s) < 0x80"
  shows "snd (DecodeRuneInString s) = 1 \<and> fst (DecodeRuneInString s) = byte_at s 0"
proof (cases rule: Decode_cases[OF assms(1)])
  case 1
  then show ?thesis using assms by (simp add: Decode_1)
next
  case 2
  then show ?thesis using assms by (simp add: Decode_bad RuneError_def)
next
  case 3
  show ?thesis using assms(2) 3 unfolding Decode_2[OF assms(1) 3] RuneError_def
    by (simp add: lead2_mod[OF 3] split: if_splits)
next
  case 4
  show ?thesis using assms(2) 4 unfolding Decode_3[OF assms(1) 4] RuneError_def
    by (simp add: lead3_mod[OF 4] cont_mod split: if_splits; linarith)
next
  case 5
  show ?thesis using assms(2) 5 unfolding Decode_4[OF assms(1) 5] RuneError_def
    by (simp add: lead4_mod[OF 5] cont_mod split: if_splits; linarith)
qed


lemma char_of_eq_iff': "(n::nat) < 256 \<Longrightarrow> (char_of n = c) = (n = of_char c)"
  by (auto intro: of_char_eqI)

lemma segments_ascii:
  "(r, bs) \<in> set (segments s) \<Longrightarrow> r < 0x80 \<Longrightarrow> bs = [char_of r]"
proof (induction s rule: segments.induct)
  case 1
  then show ?case by simp
next
  case (2 c s)
  let ?d = "DecodeRuneInString (c # s)"
  show ?case
  proof (cases "(r, bs) = (fst ?d, c # take (snd ?d - 1) s)")
    case True
    then have "fst ?d < 0x80" using "2.prems" by simp
    then have "snd ?d = 1" "fst ?d = of_char c"
      using Decode_ascii[of "c # s"] by (simp_all add: byte_at_def)
    with True show ?thesis by simp
  next
    case False
    with "2.prems" have "(r, bs) \<in> set (segments (drop (snd ?d - 1) s))" by auto
    with "2.IH" "2.prems" show ?thesis by blast
  qed
qed

lemma az09_single_segments: "az09_single (segments s)"
proof -
  have "\<not> is_az09 (fst x) \<or> snd x = [char_of (fst x)]" if "x \<in> set (segments s)" for x
  proof (cases "is_az09 (fst x)")
    case True
    then have "fst x < 0x80" by (auto simp: is_az09_def)
    then show ?thesis using segments_ascii[of "fst x" "snd x" s] that by simp
  qed simp
  then show ?thesis unfolding az09_single_def list_all_iff by blast
qed

lemma az09_single_dropWhile: "az09_single xs \<Longrightarrow> az09_single (dropWhile P xs)"
  unfolding az09_single_def list_all_iff by (blast dest: set_dropWhileD)

lemma az09_single_Cons: "az09_single (x # xs) \<Longrightarrow> az09_single xs"
  by (simp add: az09_single_def)

lemma is_az09_not_hyphen: "is_az09 r \<Longrightarrow> char_of r \<noteq> CHR ''-''"
proof -
  assume a: "is_az09 r"
  then have "r < 256" by (auto simp: is_az09_def)
  then have "(char_of r = CHR ''-'') = (r = 45)" by (simp add: char_of_eq_iff')
  with a show ?thesis by (auto simp: is_az09_def)
qed

lemma slug_char_char_of: "is_az09 r \<Longrightarrow> slug_char (char_of r)"
proof -
  assume a: "is_az09 r"
  then have "r < 256" by (auto simp: is_az09_def)
  then have "of_char (char_of r) = r" by simp
  with a show ?thesis by (simp add: slug_char_def)
qed

lemma replace_charset:
  "az09_single xs \<Longrightarrow> list_all slug_char (replace_runs (\<lambda>r. \<not> is_az09 r) ''-'' xs)"
proof (induction "\<lambda>r. \<not> is_az09 r" "''-''" xs rule: replace_runs.induct)
  case 1
  then show ?case by simp
next
  case (2 x xs)
  show ?case
  proof (cases "is_az09 (fst x)")
    case True
    with 2 have "snd x = [char_of (fst x)]" by (simp add: az09_single_def)
    with True 2 az09_single_Cons[of x xs] show ?thesis by (simp add: slug_char_char_of)
  next
    case False
    with 2 az09_single_dropWhile[OF az09_single_Cons[of x xs]] show ?thesis
      by (simp add: slug_char_def)
  qed
qed

lemma replace_hd:
  assumes "az09_single xs" "xs \<noteq> []" "is_az09 (fst (hd xs))"
  shows "\<not> prefix ''-'' (replace_runs (\<lambda>r. \<not> is_az09 r) ''-'' xs)"
proof (cases xs)
  case Nil
  with assms show ?thesis by simp
next
  case (Cons x ys)
  with assms have "snd x = [char_of (fst x)]" "is_az09 (fst x)" by (simp_all add: az09_single_def)
  with Cons is_az09_not_hyphen[of "fst x"] show ?thesis by simp
qed

lemma replace_no_double:
  "az09_single xs \<Longrightarrow> \<not> sublist ''--'' (replace_runs (\<lambda>r. \<not> is_az09 r) ''-'' xs)"
proof (induction "\<lambda>r. \<not> is_az09 r" "''-''" xs rule: replace_runs.induct)
  case 1
  then show ?case by simp
next
  case (2 x xs)
  let ?R = "replace_runs (\<lambda>r. \<not> is_az09 r) ''-''"
  show ?case
  proof (cases "is_az09 (fst x)")
    case True
    with 2 have sx: "snd x = [char_of (fst x)]" and ih: "\<not> sublist ''--'' (?R xs)"
      using az09_single_Cons[of x xs] by (simp_all add: az09_single_def)
    have "char_of (fst x) \<noteq> CHR ''-''" using True by (rule is_az09_not_hyphen)
    with sx ih True show ?thesis
      by (simp add: sublist_Cons_right)
  next
    case False
    let ?ys = "dropWhile (\<lambda>y. \<not> is_az09 (fst y)) xs"
    from 2 False have s: "az09_single ?ys" and ih: "\<not> sublist ''--'' (?R ?ys)"
      using az09_single_dropWhile[OF az09_single_Cons[of x xs]] by simp_all
    have "\<not> prefix ''-'' (?R ?ys)"
    proof (cases "?ys = []")
      case True
      show ?thesis unfolding True by simp
    next
      case False
      then have "is_az09 (fst (hd ?ys))" using hd_dropWhile[of "\<lambda>y. \<not> is_az09 (fst y)" xs] by simp
      with s False show ?thesis by (simp add: replace_hd)
    qed
    with ih False show ?thesis by (simp add: sublist_Cons_right)
  qed
qed

lemma Trim_hyphen_prefix:
  "prefix (Trim_hyphen s) (dropWhile (\<lambda>c. c = CHR ''-'') s)"
proof -
  have "suffix (dropWhile (\<lambda>c. c = CHR ''-'') (rev (dropWhile (\<lambda>c. c = CHR ''-'') s)))
          (rev (dropWhile (\<lambda>c. c = CHR ''-'') s))"
    by (rule suffix_dropWhile)
  then show ?thesis unfolding Trim_hyphen_def by (simp add: suffix_to_prefix)
qed

lemma Trim_hyphen_sublist: "sublist (Trim_hyphen s) s"
proof -
  have "sublist (dropWhile (\<lambda>c. c = CHR ''-'') s) s"
    by (rule suffix_imp_sublist[OF suffix_dropWhile])
  moreover have "sublist (Trim_hyphen s) (dropWhile (\<lambda>c. c = CHR ''-'') s)"
    by (rule prefix_imp_sublist[OF Trim_hyphen_prefix])
  ultimately show ?thesis by (rule sublist_order.order_trans[rotated])
qed

lemma Trim_hyphen_no_prefix: "\<not> prefix ''-'' (Trim_hyphen s)"
proof
  assume "prefix ''-'' (Trim_hyphen s)"
  then have "prefix ''-'' (dropWhile (\<lambda>c. c = CHR ''-'') s)"
    using Trim_hyphen_prefix[of s] by (rule prefix_order.order_trans)
  then obtain u where u: "dropWhile (\<lambda>c. c = CHR ''-'') s = CHR ''-'' # u"
    by (auto simp: prefix_def)
  then have "dropWhile (\<lambda>c. c = CHR ''-'') s \<noteq> []" by simp
  then have "hd (dropWhile (\<lambda>c. c = CHR ''-'') s) \<noteq> CHR ''-''"
    using hd_dropWhile[of "\<lambda>c. c = CHR ''-''" s] by simp
  with u show False by simp
qed

lemma Trim_hyphen_no_suffix: "\<not> suffix ''-'' (Trim_hyphen s)"
proof
  let ?r = "rev (dropWhile (\<lambda>c. c = CHR ''-'') s)"
  assume "suffix ''-'' (Trim_hyphen s)"
  then have "prefix ''-'' (dropWhile (\<lambda>c. c = CHR ''-'') ?r)"
    unfolding Trim_hyphen_def by (simp add: suffix_to_prefix)
  then obtain u where u: "dropWhile (\<lambda>c. c = CHR ''-'') ?r = CHR ''-'' # u"
    by (auto simp: prefix_def)
  then have "dropWhile (\<lambda>c. c = CHR ''-'') ?r \<noteq> []" by simp
  then have "hd (dropWhile (\<lambda>c. c = CHR ''-'') ?r) \<noteq> CHR ''-''"
    using hd_dropWhile[of "\<lambda>c. c = CHR ''-''" ?r] by simp
  with u show False by simp
qed

lemma list_all_sublist: "sublist xs ys \<Longrightarrow> list_all P ys \<Longrightarrow> list_all P xs"
  by (auto simp: sublist_def list_all_iff)

lemma sublist_take_self: "sublist (take n xs) xs"
  by (rule prefix_imp_sublist[OF take_is_prefix])

lemma not_sublist_mono: "sublist xs ys \<Longrightarrow> \<not> sublist zs ys \<Longrightarrow> \<not> sublist zs xs"
  using sublist_order.order_trans by blast


subsection \<open>The slug is the words of the title, joined\<close>

lemma az09_runs_Nil:
  assumes "dropWhile (\<lambda>r. \<not> is_az09 r) rs = []"
  shows "az09_runs rs = []"
  by (subst az09_runs.simps, subst assms, simp)

lemma az09_runs_Cons:
  assumes "dropWhile (\<lambda>r. \<not> is_az09 r) rs = r # rs'"
  shows "az09_runs rs = (r # takeWhile is_az09 rs') # az09_runs (dropWhile is_az09 rs')"
  by (subst az09_runs.simps, subst assms, simp)

lemma az09_runs_words:
  "list_all (\<lambda>w. w \<noteq> [] \<and> list_all is_az09 w) (az09_runs rs)"
proof (induction rs rule: az09_runs.induct)
  case (1 rs)
  show ?case
  proof (cases "dropWhile (\<lambda>r. \<not> is_az09 r) rs")
    case Nil
    then show ?thesis by (simp add: az09_runs_Nil)
  next
    case (Cons r rs')
    have "is_az09 r" using hd_dropWhile[of "\<lambda>r. \<not> is_az09 r" rs] Cons by simp
    moreover have "list_all is_az09 (takeWhile is_az09 rs')"
      by (auto simp: list_all_iff dest: set_takeWhileD)
    ultimately show ?thesis using 1[OF Cons] by (simp add: az09_runs_Cons[OF Cons])
  qed
qed

lemma join_hyphen_Cons:
  "ws \<noteq> [] \<Longrightarrow> join_hyphen (w # ws) = w @ ''-'' @ join_hyphen ws"
  by (cases ws) simp_all

lemma join_hyphen_ends:
  "list_all (\<lambda>w. w \<noteq> [] \<and> hd w \<noteq> CHR ''-'' \<and> last w \<noteq> CHR ''-'') ws \<Longrightarrow> ws \<noteq> []
   \<Longrightarrow> join_hyphen ws \<noteq> [] \<and> hd (join_hyphen ws) \<noteq> CHR ''-''
       \<and> last (join_hyphen ws) \<noteq> CHR ''-''"
  by (induction ws rule: join_hyphen.induct) auto

lemma word_ends:
  assumes "w \<noteq> []" "list_all is_az09 w"
  shows "map char_of w \<noteq> [] \<and> hd (map char_of w) \<noteq> CHR ''-''
         \<and> last (map char_of w) \<noteq> CHR ''-''"
proof -
  have "is_az09 (hd w)" "is_az09 (last w)" using assms by (auto simp: list_all_iff)
  then show ?thesis using assms(1) by (simp add: hd_map last_map is_az09_not_hyphen)
qed

lemma Trim_hyphen_core:
  assumes "l = [] \<or> l = ''-''" "t = [] \<or> t = ''-''"
    "m = [] \<or> hd m \<noteq> CHR ''-'' \<and> last m \<noteq> CHR ''-''"
  shows "Trim_hyphen (l @ m @ t) = m"
proof (cases "m = []")
  case True
  with assms(1,2) show ?thesis by (auto simp: Trim_hyphen_def)
next
  case False
  with assms(3) have h: "hd m \<noteq> CHR ''-''" "last m \<noteq> CHR ''-''" by simp_all
  from False h(1) have d: "dropWhile (\<lambda>c. c = CHR ''-'') (m @ t) = m @ t"
    by (cases m) simp_all
  from False h(2) have e: "dropWhile (\<lambda>c. c = CHR ''-'') (rev m) = rev m"
    by (cases m rule: rev_cases) simp_all
  have "dropWhile (\<lambda>c. c = CHR ''-'') (l @ m @ t) = m @ t"
    using assms(1) d by auto
  moreover have "dropWhile (\<lambda>c. c = CHR ''-'') (rev (m @ t)) = rev m"
    using assms(2) e by auto
  ultimately show ?thesis by (simp add: Trim_hyphen_def)
qed

lemma replace_lead:
  "\<exists>l. (l = [] \<or> l = ''-'')
     \<and> replace_runs (\<lambda>r. \<not> is_az09 r) ''-'' xs
       = l @ replace_runs (\<lambda>r. \<not> is_az09 r) ''-'' (dropWhile (\<lambda>x. \<not> is_az09 (fst x)) xs)"
proof (cases xs)
  case Nil
  then show ?thesis by simp
next
  case (Cons x xs')
  show ?thesis
  proof (cases "is_az09 (fst x)")
    case True
    with Cons show ?thesis by simp
  next
    case False
    with Cons show ?thesis by simp
  qed
qed

lemma replace_word:
  "az09_single xs \<Longrightarrow>
   replace_runs (\<lambda>r. \<not> is_az09 r) ''-'' xs
     = map char_of (takeWhile is_az09 (map fst xs))
       @ replace_runs (\<lambda>r. \<not> is_az09 r) ''-'' (dropWhile (\<lambda>x. is_az09 (fst x)) xs)"
proof (induction xs)
  case Nil
  then show ?case by simp
next
  case (Cons x xs)
  show ?case
  proof (cases "is_az09 (fst x)")
    case True
    with Cons.prems have "snd x = [char_of (fst x)]" by (simp add: az09_single_def)
    with True Cons.IH[OF az09_single_Cons[OF Cons.prems]] show ?thesis by simp
  next
    case False
    then show ?thesis by simp
  qed
qed

lemma replace_join:
  "az09_single xs \<Longrightarrow>
   \<exists>t. (t = [] \<or> t = ''-'') \<and> (az09_runs (map fst xs) = [] \<longrightarrow> t = [])
     \<and> replace_runs (\<lambda>r. \<not> is_az09 r) ''-'' (dropWhile (\<lambda>x. \<not> is_az09 (fst x)) xs)
       = join_hyphen (map (map char_of) (az09_runs (map fst xs))) @ t"
proof (induction xs rule: length_induct)
  case (1 xs)
  let ?R = "replace_runs (\<lambda>r. \<not> is_az09 r) ''-''"
  let ?P = "\<lambda>x. \<not> is_az09 (fst x)"
  let ?J = "\<lambda>rs. join_hyphen (map (map char_of) (az09_runs rs))"
  have dm: "dropWhile (\<lambda>r. \<not> is_az09 r) (map fst ys) = map fst (dropWhile ?P ys)" for ys
    by (simp add: dropWhile_map comp_def)
  have dm2: "dropWhile is_az09 (map fst ys) = map fst (dropWhile (\<lambda>x. is_az09 (fst x)) ys)" for ys
    by (simp add: dropWhile_map comp_def)
  show ?case
  proof (cases "dropWhile ?P xs")
    case Nil
    have "az09_runs (map fst xs) = []"
      by (rule az09_runs_Nil) (simp only: dm Nil list.map)
    then show ?thesis unfolding Nil by simp
  next
    case (Cons y ys)
    let ?zs = "dropWhile (\<lambda>x. is_az09 (fst x)) ys"
    let ?W = "map char_of (fst y # takeWhile is_az09 (map fst ys))"
    have y: "is_az09 (fst y)" using hd_dropWhile[of ?P xs] Cons by simp
    have sy: "az09_single (y # ys)"
      using az09_single_dropWhile[OF "1.prems", of ?P] Cons by simp
    have szs: "az09_single ?zs"
      by (rule az09_single_dropWhile[OF az09_single_Cons[OF sy]])
    have runs: "az09_runs (map fst xs) = (fst y # takeWhile is_az09 (map fst ys))
                  # az09_runs (map fst ?zs)"
      by (rule az09_runs_Cons[of "map fst xs" "fst y" "map fst ys", unfolded dm2])
         (simp only: dm Cons list.map)
    have R1: "?R (y # ys) = ?W @ ?R ?zs"
      using replace_word[OF sy] y by simp
    have len: "length ?zs < length xs"
    proof -
      have "length ?zs \<le> length ys" by (rule length_dropWhile_le)
      moreover have "Suc (length ys) \<le> length xs"
        by (metis Cons length_Cons length_dropWhile_le)
      ultimately show ?thesis by simp
    qed
    from "1.IH" len szs obtain t where t: "t = [] \<or> t = ''-''"
      "az09_runs (map fst ?zs) = [] \<longrightarrow> t = []"
      "?R (dropWhile ?P ?zs) = ?J (map fst ?zs) @ t" by blast
    show ?thesis
    proof (cases ?zs)
      case Nil
      have "az09_runs (map fst ?zs) = []" unfolding Nil by (rule az09_runs_Nil) simp
      moreover have "?R (y # ys) = ?W" using R1 unfolding Nil by simp
      ultimately show ?thesis unfolding Cons runs by simp
    next
      case zc: (Cons z zs')
      have "\<not> is_az09 (fst z)" using hd_dropWhile[of "\<lambda>x. is_az09 (fst x)" ys] zc by simp
      then have R2: "?R ?zs = ''-'' @ ?R (dropWhile ?P ?zs)" unfolding zc by simp
      show ?thesis
      proof (cases "az09_runs (map fst ?zs) = []")
        case True
        with t have "?R (dropWhile ?P ?zs) = []" by simp
        with R1 R2 have "?R (y # ys) = ?W @ ''-''" by simp
        then show ?thesis unfolding Cons runs True by simp
      next
        case False
        then have "?J (map fst xs) = ?W @ ''-'' @ ?J (map fst ?zs)"
          unfolding runs by (simp add: join_hyphen_Cons)
        with R1 R2 t(3) have "?R (y # ys) = ?J (map fst xs) @ t" by simp
        moreover have "az09_runs (map fst xs) \<noteq> []" unfolding runs by simp
        ultimately show ?thesis unfolding Cons using t(1) by blast
      qed
    qed
  qed
qed

lemma Trim_replace_runs:
  assumes "az09_single xs"
  shows "Trim_hyphen (replace_runs (\<lambda>r. \<not> is_az09 r) ''-'' xs)
         = join_hyphen (map (map char_of) (az09_runs (map fst xs)))"
proof -
  let ?m = "join_hyphen (map (map char_of) (az09_runs (map fst xs)))"
  from replace_lead[of xs] obtain l where l: "l = [] \<or> l = ''-''"
    and r1: "replace_runs (\<lambda>r. \<not> is_az09 r) ''-'' xs
       = l @ replace_runs (\<lambda>r. \<not> is_az09 r) ''-'' (dropWhile (\<lambda>x. \<not> is_az09 (fst x)) xs)"
    by blast
  from replace_join[OF assms] obtain t where t: "t = [] \<or> t = ''-''"
    and r2: "replace_runs (\<lambda>r. \<not> is_az09 r) ''-'' (dropWhile (\<lambda>x. \<not> is_az09 (fst x)) xs)
       = ?m @ t" by blast
  have r: "replace_runs (\<lambda>r. \<not> is_az09 r) ''-'' xs = l @ ?m @ t" using r1 r2 by simp
  have "list_all (\<lambda>w. w \<noteq> [] \<and> hd w \<noteq> CHR ''-'' \<and> last w \<noteq> CHR ''-'')
          (map (map char_of) (az09_runs (map fst xs)))"
    using az09_runs_words[of "map fst xs"] word_ends
    by (auto simp: list_all_iff simp del: hd_map last_map)
  then have "?m = [] \<or> hd ?m \<noteq> CHR ''-'' \<and> last ?m \<noteq> CHR ''-''"
    using join_hyphen_ends by (cases "az09_runs (map fst xs) = []") auto
  then show ?thesis unfolding r by (rule Trim_hyphen_core[OF l t])
qed

lemma is_az09_mod: "is_az09 r \<Longrightarrow> is_az09 (r mod 256)"
proof -
  assume a: "is_az09 r"
  then have "r < 256" by (auto simp: is_az09_def)
  with a show ?thesis by simp
qed

text \<open>
  C8: for every title, \<open>GenerateSlug\<close> is the words of the title in lower case, that is
  its maximal runs of characters of \<^verbatim>\<open>[a-z0-9]\<close>, joined by single hyphens, so that every
  run of other characters between two words has become one hyphen and the runs at both
  ends are gone; a result longer than 100 bytes is cut to 100 and loses the hyphen that
  the cut may leave at its end. Hence the slug consists of bytes of \<^verbatim>\<open>[a-z0-9-]\<close> only (so
  it is lower case), never has two hyphens in a row, neither starts nor ends with a
  hyphen, and is at most 100 bytes long; and the title
  \<^verbatim>\<open>The Future of Web Accessibility!\<close> gives \<^verbatim>\<open>the-future-of-web-accessibility\<close>. This
  holds whatever the Unicode case tables \<open>tbl\<close> say above ASCII.
\<close>

theorem GenerateSlug_properties:
  "GenerateSlug tbl title
     = (if length (join_hyphen (slug_words tbl title)) > 100
        then Trim_hyphen (take 100 (join_hyphen (slug_words tbl title)))
        else join_hyphen (slug_words tbl title))
   \<and> list_all (\<lambda>w. w \<noteq> [] \<and> list_all (\<lambda>c. is_az09 (of_char c)) w) (slug_words tbl title)
   \<and> list_all slug_char (GenerateSlug tbl title)
   \<and> \<not> sublist ''--'' (GenerateSlug tbl title)
   \<and> \<not> prefix ''-'' (GenerateSlug tbl title)
   \<and> \<not> suffix ''-'' (GenerateSlug tbl title)
   \<and> length (GenerateSlug tbl title) \<le> 100
   \<and> GenerateSlug tbl ''The Future of Web Accessibility!'' = ''the-future-of-web-accessibility''"
proof -
  let ?r = "replace_runs (\<lambda>r. \<not> is_az09 r) ''-'' (segments (ToLower tbl title))"
  let ?t = "Trim_hyphen ?r"
  let ?u = "Trim_hyphen (take 100 ?t)"
  have r1: "list_all slug_char ?r" by (rule replace_charset[OF az09_single_segments])
  have r2: "\<not> sublist ''--'' ?r" by (rule replace_no_double[OF az09_single_segments])
  have t: "sublist ?t ?r" by (rule Trim_hyphen_sublist)
  have u: "sublist ?u ?t"
    by (rule sublist_order.order_trans[OF Trim_hyphen_sublist sublist_take_self])
  have a: "list_all slug_char ?t" by (rule list_all_sublist[OF t r1])
  have b: "\<not> sublist ''--'' ?t" by (rule not_sublist_mono[OF t r2])
  have a': "list_all slug_char ?u" by (rule list_all_sublist[OF u a])
  have b': "\<not> sublist ''--'' ?u" by (rule not_sublist_mono[OF u b])
  have "length ?u \<le> length (take 100 ?t)"
    by (rule sublist_length_le[OF Trim_hyphen_sublist])
  then have d: "length ?u \<le> 100" by simp
  have e: "GenerateSlug tbl ''The Future of Web Accessibility!'' = ''the-future-of-web-accessibility''"
    by code_simp
  have g: "GenerateSlug tbl title = (if length ?t > 100 then ?u else ?t)"
    by (simp add: GenerateSlug_def Let_def)
  have j: "?t = join_hyphen (slug_words tbl title)"
    using Trim_replace_runs[OF az09_single_segments, of "ToLower tbl title"]
    by (simp add: slug_words_def runes_def)
  have w: "list_all (\<lambda>w. w \<noteq> [] \<and> list_all (\<lambda>c. is_az09 (of_char c)) w) (slug_words tbl title)"
    unfolding slug_words_def using az09_runs_words[of "runes (ToLower tbl title)"]
    by (auto simp: list_all_iff is_az09_mod)
  have f: "GenerateSlug tbl title
     = (if length (join_hyphen (slug_words tbl title)) > 100
        then Trim_hyphen (take 100 (join_hyphen (slug_words tbl title)))
        else join_hyphen (slug_words tbl title))"
    unfolding g j ..
  have p: "list_all slug_char (GenerateSlug tbl title)" unfolding g using a a' by simp
  have q: "\<not> sublist ''--'' (GenerateSlug tbl title)" unfolding g using b b' by simp
  have x: "\<not> prefix ''-'' (GenerateSlug tbl title)"
    unfolding g using Trim_hyphen_no_prefix by simp
  have y: "\<not> suffix ''-'' (GenerateSlug tbl title)"
    unfolding g using Trim_hyphen_no_suffix by simp
  have z: "length (GenerateSlug tbl title) \<le> 100" unfolding g using d by simp
  show ?thesis by (intro conjI f w p q x y z e)
qed

subsection \<open>Encoding and decoding agree\<close>


lemma byte_at_Cons0: "byte_at (c # s) 0 = of_char c"
  by (simp add: byte_at_def)

lemma byte_at_char_of0: "a < 256 \<Longrightarrow> byte_at (char_of a # s) 0 = a"
  by (simp add: byte_at_def)

lemma byte_at_char_of1: "b < 256 \<Longrightarrow> byte_at (x # char_of b # s) 1 = b"
  by (simp add: byte_at_def)

lemma byte_at_char_of2: "c < 256 \<Longrightarrow> byte_at (x # y # char_of c # s) 2 = c"
  by (simp add: byte_at_def numeral_2_eq_2)

lemma byte_at_char_of3: "d < 256 \<Longrightarrow> byte_at (x # y # z # char_of d # s) 3 = d"
  by (simp add: byte_at_def numeral_3_eq_3)

lemma Decode_one:
  assumes "a < 0x80"
  shows "DecodeRuneInString (char_of a # t) = (a, 1)"
proof -
  have "byte_at (char_of a # t) 0 = a" by (rule byte_at_char_of0) (use assms in simp)
  then show ?thesis using assms Decode_1[of "char_of a # t"] by simp
qed

lemma Decode_two:
  assumes "0xC2 \<le> a" "a < 0xE0" "0x80 \<le> b" "b \<le> 0xBF"
  shows "DecodeRuneInString (char_of a # char_of b # t) = ((a - 0xC0) * 64 + (b - 0x80), 2)"
proof -
  let ?s = "char_of a # char_of b # t"
  have a: "byte_at ?s 0 = a" by (rule byte_at_char_of0) (use assms in simp)
  have b: "byte_at ?s 1 = b" by (rule byte_at_char_of1) (use assms in simp)
  have "DecodeRuneInString ?s = ((byte_at ?s 0 mod 32) * 64 + byte_at ?s 1 mod 64, 2)"
    using assms by (subst Decode_2) (simp_all only: a b, simp_all)
  then show ?thesis using assms by (simp only: a b lead2_mod cont_mod)
qed

lemma Decode_three:
  assumes "0xE0 \<le> a" "a < 0xF0" "0x80 \<le> b" "b \<le> 0xBF" "0x80 \<le> c" "c \<le> 0xBF"
    and "a = 0xE0 \<Longrightarrow> 0xA0 \<le> b" and "a = 0xED \<Longrightarrow> b \<le> 0x9F"
  shows "DecodeRuneInString (char_of a # char_of b # char_of c # t)
           = ((a - 0xE0) * 4096 + (b - 0x80) * 64 + (c - 0x80), 3)"
proof -
  let ?s = "char_of a # char_of b # char_of c # t"
  have a: "byte_at ?s 0 = a" by (rule byte_at_char_of0) (use assms in simp)
  have b: "byte_at ?s 1 = b" by (rule byte_at_char_of1) (use assms in simp)
  have c: "byte_at ?s 2 = c" by (rule byte_at_char_of2) (use assms in simp)
  have "DecodeRuneInString ?s
          = ((byte_at ?s 0 mod 16) * 4096 + (byte_at ?s 1 mod 64) * 64 + byte_at ?s 2 mod 64, 3)"
    using assms by (subst Decode_3) (simp_all only: a b c, auto)
  then show ?thesis using assms by (simp only: a b c lead3_mod cont_mod)
qed

lemma Decode_four:
  assumes "0xF0 \<le> a" "a \<le> 0xF4" "0x80 \<le> b" "b \<le> 0xBF" "0x80 \<le> c" "c \<le> 0xBF"
    "0x80 \<le> d" "d \<le> 0xBF"
    and "a = 0xF0 \<Longrightarrow> 0x90 \<le> b" and "a = 0xF4 \<Longrightarrow> b \<le> 0x8F"
  shows "DecodeRuneInString (char_of a # char_of b # char_of c # char_of d # t)
           = ((a - 0xF0) * 262144 + (b - 0x80) * 4096 + (c - 0x80) * 64 + (d - 0x80), 4)"
proof -
  let ?s = "char_of a # char_of b # char_of c # char_of d # t"
  have a: "byte_at ?s 0 = a" by (rule byte_at_char_of0) (use assms in simp)
  have b: "byte_at ?s 1 = b" by (rule byte_at_char_of1) (use assms in simp)
  have c: "byte_at ?s 2 = c" by (rule byte_at_char_of2) (use assms in simp)
  have d: "byte_at ?s 3 = d" by (rule byte_at_char_of3) (use assms in simp)
  have "DecodeRuneInString ?s
          = ((byte_at ?s 0 mod 8) * 262144 + (byte_at ?s 1 mod 64) * 4096
               + (byte_at ?s 2 mod 64) * 64 + byte_at ?s 3 mod 64, 4)"
    using assms by (subst Decode_4) (simp_all only: a b c d, auto)
  then show ?thesis using assms by (simp only: a b c d lead4_mod cont_mod)
qed


lemma Decode_valid:
  assumes "s \<noteq> []"
  shows "valid_rune (fst (DecodeRuneInString s))"
proof (cases rule: Decode_cases[OF assms])
  case 1
  then show ?thesis using assms by (simp add: Decode_1 valid_rune_def)
next
  case 2
  then show ?thesis using assms by (simp add: Decode_bad RuneError_def valid_rune_def)
next
  case 3
  define a b where "a = byte_at s 0" and "b = byte_at s 1"
  show ?thesis
  proof (cases "length s < 2 \<or> b < 0x80 \<or> 0xBF < b")
    case True
    then show ?thesis unfolding Decode_2[OF assms 3] by (simp add: a_def b_def RuneError_def valid_rune_def)
  next
    case False
    then have d: "DecodeRuneInString s = ((a - 0xC0) * 64 + (b - 0x80), 2)"
      unfolding Decode_2[OF assms 3] using 3 by (simp add: a_def b_def lead2_mod cont_mod)
    have "a - 0xC0 \<le> 31" "b - 0x80 \<le> 63" using 3 False by (auto simp: a_def)
    then have "(a - 0xC0) * 64 + (b - 0x80) \<le> 31 * 64 + 63" by (intro add_mono mult_le_mono1)
    then show ?thesis unfolding d by (simp add: valid_rune_def)
  qed
next
  case 4
  define a b c where "a = byte_at s 0" and "b = byte_at s 1" and "c = byte_at s 2"
  show ?thesis
  proof (cases "length s < 3 \<or> b < (if a = 0xE0 then 0xA0 else 0x80)
           \<or> (if a = 0xED then 0x9F else 0xBF) < b \<or> c < 0x80 \<or> 0xBF < c")
    case True
    then show ?thesis unfolding Decode_3[OF assms 4] by (simp add: a_def b_def c_def RuneError_def valid_rune_def)
  next
    case False
    then have bc: "0x80 \<le> b" "b \<le> 0xBF" "0x80 \<le> c" "c \<le> 0xBF"
      by (auto split: if_splits)
    from False have d: "DecodeRuneInString s = ((a - 0xE0) * 4096 + (b - 0x80) * 64 + (c - 0x80), 3)"
      unfolding Decode_3[OF assms 4] using 4 bc by (simp add: a_def b_def c_def lead3_mod cont_mod)
    define h m l where "h = a - 0xE0" and "m = b - 0x80" and "l = c - 0x80"
    have l: "l \<le> 63" and m: "m \<le> 63" and h: "h \<le> 15" using 4 bc by (auto simp: h_def m_def l_def a_def)
    have e: "a = 0xED \<Longrightarrow> m \<le> 31" using False by (auto simp: m_def split: if_splits)
    have ah: "a = 0xED \<longleftrightarrow> h = 13" using 4 by (auto simp: h_def a_def)
    have "h * 4096 + m * 64 + l < 0xD800 \<or> 0xE000 \<le> h * 4096 + m * 64 + l"
    proof (cases "h \<le> 12")
      case True
      then have "h * 4096 \<le> 12 * 4096" by (rule mult_le_mono1)
      moreover have "m * 64 \<le> 63 * 64" using m by (rule mult_le_mono1)
      ultimately show ?thesis using l by simp
    next
      case False
      show ?thesis
      proof (cases "h = 13")
        case True
        then have "m * 64 \<le> 31 * 64" using e ah by (intro mult_le_mono1) simp
        then show ?thesis using True l by simp
      next
        case False
        with \<open>\<not> h \<le> 12\<close> have "14 \<le> h" by simp
        then have "14 * 4096 \<le> h * 4096" by (rule mult_le_mono1)
        then show ?thesis by simp
      qed
    qed
    moreover have "h * 4096 + m * 64 + l \<le> 0x10FFFF"
    proof -
      have "h * 4096 \<le> 15 * 4096" using h by (rule mult_le_mono1)
      moreover have "m * 64 \<le> 63 * 64" using m by (rule mult_le_mono1)
      ultimately show ?thesis using l by simp
    qed
    ultimately show ?thesis unfolding d valid_rune_def fst_conv h_def m_def l_def by simp
  qed
next
  case 5
  define a b c e where "a = byte_at s 0" and "b = byte_at s 1" and "c = byte_at s 2"
    and "e = byte_at s 3"
  show ?thesis
  proof (cases "length s < 4 \<or> b < (if a = 0xF0 then 0x90 else 0x80)
           \<or> (if a = 0xF4 then 0x8F else 0xBF) < b \<or> c < 0x80 \<or> 0xBF < c
           \<or> e < 0x80 \<or> 0xBF < e")
    case True
    then show ?thesis unfolding Decode_4[OF assms 5]
      by (simp add: a_def b_def c_def e_def RuneError_def valid_rune_def)
  next
    case False
    then have bc: "0x80 \<le> b" "b \<le> 0xBF" "0x80 \<le> c" "c \<le> 0xBF" "0x80 \<le> e" "e \<le> 0xBF"
      by (auto split: if_splits)
    from False have d: "DecodeRuneInString s
        = ((a - 0xF0) * 262144 + (b - 0x80) * 4096 + (c - 0x80) * 64 + (e - 0x80), 4)"
      unfolding Decode_4[OF assms 5] using 5 bc
      by (simp add: a_def b_def c_def e_def lead4_mod cont_mod)
    define g h m l where "g = a - 0xF0" and "h = b - 0x80" and "m = c - 0x80" and "l = e - 0x80"
    have l: "l \<le> 63" and m: "m \<le> 63" and h: "h \<le> 63" and g: "g \<le> 4"
      using 5 bc by (auto simp: g_def h_def m_def l_def a_def)
    have lo: "g = 0 \<Longrightarrow> 16 \<le> h" using False 5 by (auto simp: g_def h_def a_def split: if_splits)
    have hi: "g = 4 \<Longrightarrow> h \<le> 15" using False 5 by (auto simp: g_def h_def a_def split: if_splits)
    have 1: "0xE000 \<le> g * 262144 + h * 4096 + m * 64 + l"
    proof (cases "g = 0")
      case True
      then have "16 * 4096 \<le> h * 4096" using lo by (intro mult_le_mono1) simp
      then show ?thesis by simp
    next
      case False
      then have "1 * 262144 \<le> g * 262144" by (intro mult_le_mono1) simp
      then show ?thesis by simp
    qed
    have 2: "g * 262144 + h * 4096 + m * 64 + l \<le> 0x10FFFF"
    proof (cases "g = 4")
      case True
      then have "h * 4096 \<le> 15 * 4096" using hi by (intro mult_le_mono1) simp
      moreover have "m * 64 \<le> 63 * 64" using m by (rule mult_le_mono1)
      ultimately show ?thesis using True l by simp
    next
      case False
      with g have "g \<le> 3" by simp
      then have "g * 262144 \<le> 3 * 262144" by (rule mult_le_mono1)
      moreover have "h * 4096 \<le> 63 * 4096" using h by (rule mult_le_mono1)
      moreover have "m * 64 \<le> 63 * 64" using m by (rule mult_le_mono1)
      ultimately show ?thesis using l by simp
    qed
    from 1 2 show ?thesis unfolding d valid_rune_def fst_conv g_def h_def m_def l_def by simp
  qed
qed

lemma Encode_cases:
  assumes "valid_rune r"
  obtains
    (one) "r < 0x80" "EncodeRune r = [char_of r]"
  | (two) a b where "EncodeRune r = [char_of a, char_of b]"
      "0xC2 \<le> a" "a < 0xE0" "0x80 \<le> b" "b \<le> 0xBF" "(a - 0xC0) * 64 + (b - 0x80) = r"
  | (three) a b c where "EncodeRune r = [char_of a, char_of b, char_of c]"
      "0xE0 \<le> a" "a < 0xF0" "0x80 \<le> b" "b \<le> 0xBF" "0x80 \<le> c" "c \<le> 0xBF"
      "a = 0xE0 \<Longrightarrow> 0xA0 \<le> b" "a = 0xED \<Longrightarrow> b \<le> 0x9F"
      "(a - 0xE0) * 4096 + (b - 0x80) * 64 + (c - 0x80) = r"
  | (four) a b c d where "EncodeRune r = [char_of a, char_of b, char_of c, char_of d]"
      "0xF0 \<le> a" "a \<le> 0xF4" "0x80 \<le> b" "b \<le> 0xBF" "0x80 \<le> c" "c \<le> 0xBF"
      "0x80 \<le> d" "d \<le> 0xBF"
      "a = 0xF0 \<Longrightarrow> 0x90 \<le> b" "a = 0xF4 \<Longrightarrow> b \<le> 0x8F"
      "(a - 0xF0) * 262144 + (b - 0x80) * 4096 + (c - 0x80) * 64 + (d - 0x80) = r"
proof -
  define l where "l = r mod 64"
  define q where "q = r div 64"
  define m where "m = q mod 64"
  define h where "h = q div 64"
  define k where "k = h mod 64"
  define g where "g = h div 64"
  have r: "r = q * 64 + l" and l: "l < 64" by (simp_all add: l_def q_def)
  have q: "q = h * 64 + m" and m: "m < 64" by (simp_all add: m_def h_def)
  have h: "h = g * 64 + k" and k: "k < 64" by (simp_all add: k_def g_def)
  have d4096: "r div 4096 = h" unfolding h_def q_def by (simp add: div_mult2_eq)
  have d262144: "r div 262144 = g" unfolding g_def h_def q_def by (simp add: div_mult2_eq)
  consider "r < 0x80" | "0x80 \<le> r" "r < 0x800" | "0x800 \<le> r" "r < 0x10000"
    | "0x10000 \<le> r" by linarith
  then show thesis
  proof cases
    case 1
    then show thesis by (intro one) (simp_all add: EncodeRune_def)
  next
    case 2
    then have e: "EncodeRune r = [char_of (0xC0 + q), char_of (0x80 + l)]"
      by (simp add: EncodeRune_def q_def l_def)
    show thesis
      by (rule two[OF e]) (use 2 r l in linarith)+
  next
    case 3
    with assms have v: "r < 0xD800 \<or> 0xE000 \<le> r" by (simp add: valid_rune_def)
    with 3 have e: "EncodeRune r = [char_of (0xE0 + h), char_of (0x80 + m), char_of (0x80 + l)]"
      by (auto simp add: EncodeRune_def d4096 q_def[symmetric] m_def[symmetric] l_def[symmetric])
    show thesis
      by (rule three[OF e]) (use 3 v r l q m in linarith)+
  next
    case 4
    with assms have v: "r \<le> 0x10FFFF" by (simp add: valid_rune_def)
    have "(r div 4096) mod 64 = k" unfolding d4096 k_def ..
    with 4 v have e: "EncodeRune r =
        [char_of (0xF0 + g), char_of (0x80 + k), char_of (0x80 + m), char_of (0x80 + l)]"
      by (simp add: EncodeRune_def d262144 q_def[symmetric] m_def[symmetric] l_def[symmetric])
    show thesis
      by (rule four[OF e]) (use 4 v r l q m h k in linarith)+
  qed
qed

lemma Encode_Decode:
  assumes "valid_rune r"
  shows "DecodeRuneInString (EncodeRune r @ t) = (r, length (EncodeRune r))"
  using assms
proof (cases rule: Encode_cases)
  case one
  then show ?thesis by (simp add: Decode_one)
next
  case (two a b)
  then show ?thesis by (simp add: Decode_two)
next
  case (three a b c)
  then show ?thesis by (simp add: Decode_three)
next
  case (four a b c d)
  then show ?thesis by (simp add: Decode_four)
qed

lemma EncodeRune_nonempty: "EncodeRune r \<noteq> []"
  by (simp add: EncodeRune_def)

lemma segments_Encode:
  assumes "valid_rune r"
  shows "segments (EncodeRune r @ t) = (r, EncodeRune r) # segments t"
proof -
  obtain c u where cu: "EncodeRune r = c # u" using EncodeRune_nonempty[of r] by (cases "EncodeRune r") auto
  have d: "DecodeRuneInString (c # u @ t) = (r, Suc (length u))"
    using Encode_Decode[OF assms, of t] cu by simp
  show ?thesis unfolding cu by (simp add: d)
qed

lemma segments_encode_runes:
  "list_all valid_rune rs \<Longrightarrow> segments (encode_runes rs) = map (\<lambda>r. (r, EncodeRune r)) rs"
  by (induction rs) (simp_all add: encode_runes_def segments_Encode)

lemma runes_encode_runes: "list_all valid_rune rs \<Longrightarrow> runes (encode_runes rs) = rs"
  by (simp add: runes_def segments_encode_runes comp_def)

lemma segments_valid: "list_all (\<lambda>x. valid_rune (fst x)) (segments s)"
proof (induction s rule: segments.induct)
  case 1
  then show ?case by simp
next
  case (2 c s)
  then show ?case using Decode_valid[of "c # s"] by simp
qed

lemma runes_valid: "list_all valid_rune (runes s)"
  using segments_valid[of s] by (simp add: runes_def list_all_iff)

lemma segments_concat: "concat (map snd (segments s)) = s"
  by (induction s rule: segments.induct) simp_all

lemma byte_at_append: "byte_at (p @ xs) (length p + i) = byte_at xs i"
  by (simp add: byte_at_def)

lemma byte_at_append0: "byte_at (p @ xs) (length p) = byte_at xs 0"
  using byte_at_append[of p xs 0] by simp

lemma DecodeLast_one:
  fixes a :: nat
  assumes "a < 0x80"
  shows "DecodeLastRuneInString (p @ [char_of a]) = (a, 1)"
proof -
  have "byte_at (p @ [char_of a]) (length p) = a"
    unfolding byte_at_append0 by (rule byte_at_char_of0) (use assms in simp)
  then show ?thesis using assms by (simp add: DecodeLastRuneInString_def)
qed

lemma DecodeLast_two:
  fixes a b :: nat
  assumes "0xC2 \<le> a" "a < 0xE0" "0x80 \<le> b" "b \<le> 0xBF"
  shows "DecodeLastRuneInString (p @ [char_of a, char_of b])
           = DecodeRuneInString [char_of a, char_of b]"
proof -
  let ?s = "p @ [char_of a, char_of b]"
  have n: "length ?s = length p + 2" by simp
  have b0: "byte_at ?s (Suc (length p)) = b"
    using assms by (simp add: byte_at_def nth_append)
  have a0: "byte_at ?s (length p) = a"
    using assms by (simp add: byte_at_def nth_append)
  have bl: "back_len ?s = 2"
    unfolding back_len_def n Let_def using assms by (simp add: a0 RuneStart_def)
  have d: "snd (DecodeRuneInString [char_of a, char_of b]) = 2"
    using assms by (simp add: Decode_two)
  show ?thesis
    unfolding DecodeLastRuneInString_def bl n Let_def using assms d
    by (simp add: b0 prod_eq_iff)
qed

lemma DecodeLast_three:
  fixes a b c :: nat
  assumes "0xE0 \<le> a" "a < 0xF0" "0x80 \<le> b" "b \<le> 0xBF" "0x80 \<le> c" "c \<le> 0xBF"
    and "a = 0xE0 \<Longrightarrow> 0xA0 \<le> b" and "a = 0xED \<Longrightarrow> b \<le> 0x9F"
  shows "DecodeLastRuneInString (p @ [char_of a, char_of b, char_of c])
           = DecodeRuneInString [char_of a, char_of b, char_of c]"
proof -
  let ?s = "p @ [char_of a, char_of b, char_of c]"
  have n: "length ?s = length p + 3" by simp
  have c0: "byte_at ?s (Suc (Suc (length p))) = c"
    using assms by (simp add: byte_at_def nth_append)
  have b0: "byte_at ?s (Suc (length p)) = b"
    using assms by (simp add: byte_at_def nth_append)
  have a0: "byte_at ?s (length p) = a"
    using assms by (simp add: byte_at_def nth_append)
  have bl: "back_len ?s = 3"
    unfolding back_len_def n Let_def using assms by (simp add: a0 b0 RuneStart_def)
  have d: "snd (DecodeRuneInString [char_of a, char_of b, char_of c]) = 3"
    using assms by (simp add: Decode_three)
  show ?thesis
    unfolding DecodeLastRuneInString_def bl n Let_def using assms d
    by (simp add: c0 prod_eq_iff)
qed

lemma DecodeLast_four:
  fixes a b c d :: nat
  assumes "0xF0 \<le> a" "a \<le> 0xF4" "0x80 \<le> b" "b \<le> 0xBF" "0x80 \<le> c" "c \<le> 0xBF"
    "0x80 \<le> d" "d \<le> 0xBF"
    and "a = 0xF0 \<Longrightarrow> 0x90 \<le> b" and "a = 0xF4 \<Longrightarrow> b \<le> 0x8F"
  shows "DecodeLastRuneInString (p @ [char_of a, char_of b, char_of c, char_of d])
           = DecodeRuneInString [char_of a, char_of b, char_of c, char_of d]"
proof -
  let ?s = "p @ [char_of a, char_of b, char_of c, char_of d]"
  have n: "length ?s = length p + 4" by simp
  have d0: "byte_at ?s (3 + length p) = d"
    using assms by (simp add: byte_at_def nth_append)
  have c0: "byte_at ?s (Suc (Suc (length p))) = c"
    using assms by (simp add: byte_at_def nth_append)
  have b0: "byte_at ?s (Suc (length p)) = b"
    using assms by (simp add: byte_at_def nth_append)
  have a0: "byte_at ?s (length p) = a"
    using assms by (simp add: byte_at_def nth_append)
  have bl: "back_len ?s = 4"
    unfolding back_len_def n Let_def using assms by (simp add: a0 b0 c0 RuneStart_def)
  have d: "snd (DecodeRuneInString [char_of a, char_of b, char_of c, char_of d]) = 4"
    using assms by (simp add: Decode_four)
  show ?thesis
    unfolding DecodeLastRuneInString_def bl n Let_def using assms d
    by (simp add: d0 prod_eq_iff)
qed

lemma Encode_DecodeLast:
  assumes "valid_rune r"
  shows "DecodeLastRuneInString (p @ EncodeRune r) = (r, length (EncodeRune r))"
  using assms
proof (cases rule: Encode_cases)
  case one
  then show ?thesis by (simp add: DecodeLast_one)
next
  case (two a b)
  then show ?thesis by (simp add: DecodeLast_two Decode_two)
next
  case (three a b c)
  then show ?thesis by (simp add: DecodeLast_three Decode_three)
next
  case (four a b c d)
  then show ?thesis by (simp add: DecodeLast_four Decode_four)
qed

subsection \<open>TrimSpace and SanitizeString on encoded runes\<close>


lemma encode_runes_append: "encode_runes (xs @ ys) = encode_runes xs @ encode_runes ys"
  by (simp add: encode_runes_def)

lemma encode_runes_snoc: "encode_runes (xs @ [r]) = encode_runes xs @ EncodeRune r"
  by (simp add: encode_runes_def)

lemma list_all_dropWhile: "list_all P xs \<Longrightarrow> list_all P (dropWhile Q xs)"
  by (auto simp: list_all_iff dest: set_dropWhileD)

lemma TrimLeftSpace_encode:
  assumes "list_all valid_rune rs"
  shows "TrimLeftSpace (encode_runes rs) = encode_runes (dropWhile IsSpace rs)"
proof -
  have "dropWhile (\<lambda>x. IsSpace (fst x)) (map (\<lambda>r. (r, EncodeRune r)) rs)
          = map (\<lambda>r. (r, EncodeRune r)) (dropWhile IsSpace rs)"
    by (simp add: dropWhile_map comp_def)
  then show ?thesis
    unfolding TrimLeftSpace_def segments_encode_runes[OF assms]
    by (simp add: encode_runes_def comp_def)
qed

lemma TrimRightSpace_encode:
  "list_all valid_rune rs \<Longrightarrow>
     TrimRightSpace (encode_runes rs) = encode_runes (rev (dropWhile IsSpace (rev rs)))"
proof (induction rs rule: rev_induct)
  case Nil
  show ?case by (simp add: encode_runes_def TrimRightSpace.simps)
next
  case (snoc r rs)
  then have v: "valid_rune r" and vs: "list_all valid_rune rs" by simp_all
  let ?s = "encode_runes rs @ EncodeRune r"
  have ne: "?s \<noteq> []" by (simp add: EncodeRune_nonempty)
  have d: "DecodeLastRuneInString ?s = (r, length (EncodeRune r))"
    by (rule Encode_DecodeLast[OF v])
  show ?case
  proof (cases "IsSpace r")
    case True
    have "TrimRightSpace ?s = TrimRightSpace (encode_runes rs)"
      by (subst TrimRightSpace.simps) (simp add: EncodeRune_nonempty d True)
    with snoc.IH[OF vs] True show ?thesis by (simp add: encode_runes_snoc)
  next
    case False
    have "TrimRightSpace ?s = ?s"
      by (subst TrimRightSpace.simps) (simp add: EncodeRune_nonempty d False)
    with False show ?thesis by (simp add: encode_runes_snoc)
  qed
qed

lemma TrimSpace_encode:
  assumes "list_all valid_rune rs"
  shows "TrimSpace (encode_runes rs) = encode_runes (trim_runes rs)"
  unfolding TrimSpace_def trim_runes_def TrimLeftSpace_encode[OF assms]
  by (rule TrimRightSpace_encode[OF list_all_dropWhile[OF assms]])

lemma trim_runes_valid: "list_all valid_rune rs \<Longrightarrow> list_all valid_rune (trim_runes rs)"
  unfolding trim_runes_def by (auto simp: list_all_iff dest!: set_dropWhileD)

lemma trim_runes_subset: "set (trim_runes rs) \<subseteq> set rs"
  unfolding trim_runes_def by (auto dest!: set_dropWhileD)

lemma trim_runes_prefix: "prefix (trim_runes rs) (dropWhile IsSpace rs)"
proof -
  have "suffix (dropWhile IsSpace (rev (dropWhile IsSpace rs))) (rev (dropWhile IsSpace rs))"
    by (rule suffix_dropWhile)
  then show ?thesis unfolding trim_runes_def by (simp add: suffix_to_prefix)
qed

lemma trim_runes_hd:
  assumes "trim_runes rs \<noteq> []"
  shows "\<not> IsSpace (hd (trim_runes rs))"
proof -
  obtain zs where z: "dropWhile IsSpace rs = trim_runes rs @ zs"
    using trim_runes_prefix[of rs] by (auto simp: prefix_def)
  with assms have ne: "dropWhile IsSpace rs \<noteq> []" by auto
  from z assms have "hd (dropWhile IsSpace rs) = hd (trim_runes rs)" by simp
  with hd_dropWhile[OF ne] show ?thesis by simp
qed

lemma trim_runes_last:
  assumes "trim_runes rs \<noteq> []"
  shows "\<not> IsSpace (hd (rev (trim_runes rs)))"
proof -
  let ?d = "dropWhile IsSpace (rev (dropWhile IsSpace rs))"
  have r: "rev (trim_runes rs) = ?d" by (simp add: trim_runes_def)
  from assms have "rev (trim_runes rs) \<noteq> []" by simp
  then have "?d \<noteq> []" by (simp add: r)
  from hd_dropWhile[OF this] show ?thesis by (simp add: r)
qed

lemma dropWhile_id_hd: "xs = [] \<or> \<not> P (hd xs) \<Longrightarrow> dropWhile P xs = xs"
  by (cases xs) auto

lemma trim_runes_idem: "trim_runes (trim_runes rs) = trim_runes rs"
proof -
  let ?t = "trim_runes rs"
  have a: "dropWhile IsSpace ?t = ?t"
    by (rule dropWhile_id_hd) (use trim_runes_hd[of rs] in blast)
  have b: "dropWhile IsSpace (rev ?t) = rev ?t"
    by (rule dropWhile_id_hd) (use trim_runes_last[of rs] in auto)
  show ?thesis
    by (subst trim_runes_def) (simp only: a b rev_rev_ident)
qed

lemma SanitizeString_runes:
  "SanitizeString s = encode_runes (trim_runes
     (filter (\<lambda>r. \<not> (IsControl r \<and> r \<noteq> 0x0A \<and> r \<noteq> 0x09 \<and> r \<noteq> 0x0D)) (runes s)))"
proof -
  have "list_all valid_rune
          (filter (\<lambda>r. \<not> (IsControl r \<and> r \<noteq> 0x0A \<and> r \<noteq> 0x09 \<and> r \<noteq> 0x0D)) (runes s))"
    using runes_valid[of s] by (simp add: list_all_iff)
  from TrimSpace_encode[OF this] show ?thesis
    by (simp add: SanitizeString_def encode_runes_def)
qed

lemma runes_SanitizeString:
  "runes (SanitizeString s) = trim_runes
     (filter (\<lambda>r. \<not> (IsControl r \<and> r \<noteq> 0x0A \<and> r \<noteq> 0x09 \<and> r \<noteq> 0x0D)) (runes s))"
proof -
  have "list_all valid_rune
          (filter (\<lambda>r. \<not> (IsControl r \<and> r \<noteq> 0x0A \<and> r \<noteq> 0x09 \<and> r \<noteq> 0x0D)) (runes s))"
    using runes_valid[of s] by (simp add: list_all_iff)
  then show ?thesis
    unfolding SanitizeString_runes by (intro runes_encode_runes trim_runes_valid)
qed


lemma SanitizeString_kept:
  "\<forall>r\<in>set (trim_runes (filter (\<lambda>r. \<not> (IsControl r \<and> r \<noteq> 0x0A \<and> r \<noteq> 0x09 \<and> r \<noteq> 0x0D)) (runes s))).
      \<not> (IsControl r \<and> r \<noteq> 0x0A \<and> r \<noteq> 0x09 \<and> r \<noteq> 0x0D)"
proof
  fix r
  assume "r \<in> set (trim_runes (filter (\<lambda>r. \<not> (IsControl r \<and> r \<noteq> 0x0A \<and> r \<noteq> 0x09 \<and> r \<noteq> 0x0D)) (runes s)))"
  then have "r \<in> set (filter (\<lambda>r. \<not> (IsControl r \<and> r \<noteq> 0x0A \<and> r \<noteq> 0x09 \<and> r \<noteq> 0x0D)) (runes s))"
    using trim_runes_subset by blast
  then show "\<not> (IsControl r \<and> r \<noteq> 0x0A \<and> r \<noteq> 0x09 \<and> r \<noteq> 0x0D)"
    by (simp only: set_filter mem_Collect_eq simp_thms)
qed


lemma SanitizeString_twice: "SanitizeString (SanitizeString s) = SanitizeString s"
proof -
  let ?keep = "\<lambda>r. \<not> (IsControl r \<and> r \<noteq> 0x0A \<and> r \<noteq> 0x09 \<and> r \<noteq> 0x0D)"
  let ?ys = "trim_runes (filter ?keep (runes s))"
  have ys: "runes (SanitizeString s) = ?ys" by (rule runes_SanitizeString)
  have f: "filter ?keep ?ys = ?ys" using SanitizeString_kept[of s] by (rule filter_True)
  have "SanitizeString (SanitizeString s) = encode_runes (trim_runes (filter ?keep ?ys))"
    by (subst SanitizeString_runes) (simp only: ys)
  also have "\<dots> = encode_runes ?ys" by (simp only: f trim_runes_idem)
  also have "\<dots> = SanitizeString s" by (rule SanitizeString_runes[symmetric])
  finally show ?thesis .
qed


lemma SanitizeString_no_control: "\<not> list_ex (\<lambda>r. IsControl r \<and> r \<noteq> 0x0A \<and> r \<noteq> 0x09 \<and> r \<noteq> 0x0D)
             (runes (SanitizeString s))"
  unfolding runes_SanitizeString list_ex_iff using SanitizeString_kept[of s] by blast


lemma SanitizeString_no_leading_space: "\<not> starts_with_space (SanitizeString s)"
proof -
  let ?keep = "\<lambda>r. \<not> (IsControl r \<and> r \<noteq> 0x0A \<and> r \<noteq> 0x09 \<and> r \<noteq> 0x0D)"
  let ?ys = "trim_runes (filter ?keep (runes s))"
  show ?thesis
    unfolding starts_with_space_def runes_SanitizeString using trim_runes_hd[of "filter ?keep (runes s)"]
    by (cases ?ys) simp_all
qed


lemma SanitizeString_no_trailing_space: "\<not> ends_with_space (SanitizeString s)"
proof -
  let ?keep = "\<lambda>r. \<not> (IsControl r \<and> r \<noteq> 0x0A \<and> r \<noteq> 0x09 \<and> r \<noteq> 0x0D)"
  let ?ys = "trim_runes (filter ?keep (runes s))"
  show ?thesis
    unfolding ends_with_space_def runes_SanitizeString using trim_runes_last[of "filter ?keep (runes s)"]
    by (cases "rev ?ys") simp_all
qed


text \<open>
  C10: \<open>SanitizeString\<close> is idempotent, its output holds no control character other
  than newline, tab and carriage return, and neither the first nor the last rune of the
  output is white space. The statement is about every byte string, well-formed UTF-8 or
  not.
\<close>

theorem SanitizeString_idempotent:
  "SanitizeString (SanitizeString s) = SanitizeString s
   \<and> \<not> list_ex (\<lambda>r. IsControl r \<and> r \<noteq> 0x0A \<and> r \<noteq> 0x09 \<and> r \<noteq> 0x0D)
          (runes (SanitizeString s))
   \<and> \<not> starts_with_space (SanitizeString s)
   \<and> \<not> ends_with_space (SanitizeString s)"
  by (intro conjI SanitizeString_twice SanitizeString_no_control
        SanitizeString_no_leading_space SanitizeString_no_trailing_space)

subsection \<open>truncateText and GenerateExcerpt\<close>


lemma LastIndex_space_none: "CHR '' '' \<notin> set t \<Longrightarrow> LastIndex_space t = -1"
  by (simp add: LastIndex_space_def)

lemma LastIndex_space_some:
  assumes "CHR '' '' \<in> set t"
  obtains k where "LastIndex_space t = int k" "k < length t" "t ! k = CHR '' ''"
    "CHR '' '' \<notin> set (drop (Suc k) t)"
proof -
  let ?P = "\<lambda>c. c \<noteq> CHR '' ''"
  let ?j = "length (takeWhile ?P (rev t))"
  have "takeWhile ?P (rev t) \<noteq> rev t"
    using assms by (auto simp: takeWhile_eq_all_conv)
  then have j: "?j < length (rev t)"
    using length_takeWhile_le[of ?P "rev t"] takeWhile_eq_take[of ?P "rev t"]
    by (metis le_neq_implies_less take_all_iff order_refl)
  then have jt: "?j < length t" by simp
  define k where "k = length t - 1 - ?j"
  have k: "k < length t" "?j = length t - 1 - k" "Suc k = length t - ?j" using jt by (simp_all add: k_def)
  have 1: "LastIndex_space t = int k" using assms jt by (simp add: LastIndex_space_def k_def)
  have "rev t ! ?j = CHR '' ''" using nth_length_takeWhile[OF j] by simp
  then have 2: "t ! k = CHR '' ''" using jt by (simp add: rev_nth k_def)
  have "drop (Suc k) t = rev (take ?j (rev t))" unfolding k(3) by (simp add: rev_take)
  also have "take ?j (rev t) = takeWhile ?P (rev t)" by (rule takeWhile_eq_take[symmetric])
  finally have "set (drop (Suc k) t) = set (takeWhile ?P (rev t))" by simp
  then have 3: "CHR '' '' \<notin> set (drop (Suc k) t)" by (auto dest: set_takeWhileD)
  from that[OF 1 k(1) 2 3] show thesis .
qed


lemma segments_head_byte:
  "x \<in> set (segments s) \<Longrightarrow>
     snd x \<noteq> [] \<and> ((of_char (hd (snd x)) :: nat) < 0x80 \<longrightarrow> fst x = of_char (hd (snd x)))"
proof (induction s rule: segments.induct)
  case 1
  then show ?case by simp
next
  case (2 c s)
  let ?d = "DecodeRuneInString (c # s)"
  show ?case
  proof (cases "x = (fst ?d, c # take (snd ?d - 1) s)")
    case True
    have "(of_char c :: nat) < 0x80 \<Longrightarrow> fst ?d = of_char c"
      using Decode_1[of "c # s"] by (simp add: byte_at_def)
    with True show ?thesis by simp
  next
    case False
    with "2.prems" have "x \<in> set (segments (drop (snd ?d - 1) s))" by auto
    with "2.IH" show ?thesis by blast
  qed
qed

lemma TrimLeftSpace_no_space: "\<not> prefix '' '' (TrimLeftSpace s)"
proof (cases "dropWhile (\<lambda>x. IsSpace (fst x)) (segments s)")
  case Nil
  show ?thesis unfolding TrimLeftSpace_def Nil by simp
next
  case (Cons y ys)
  then have ne: "dropWhile (\<lambda>x. IsSpace (fst x)) (segments s) \<noteq> []" by simp
  from hd_dropWhile[OF ne] Cons have ns: "\<not> IsSpace (fst y)" by simp
  have "y \<in> set (dropWhile (\<lambda>x. IsSpace (fst x)) (segments s))" using Cons by simp
  then have "y \<in> set (segments s)" by (rule set_dropWhileD)
  from segments_head_byte[OF this] obtain b bs where
    y: "snd y = b # bs" and asc: "(of_char b :: nat) < 0x80 \<Longrightarrow> fst y = of_char b"
    by (cases "snd y") auto
  have "b \<noteq> CHR '' ''"
  proof
    assume "b = CHR '' ''"
    with asc have "fst y = 0x20" by simp
    with ns show False by (simp add: IsSpace_def)
  qed
  with y show ?thesis unfolding TrimLeftSpace_def Cons by simp
qed

lemma TrimRightSpace_prefix: "prefix (TrimRightSpace s) s"
proof (induction s rule: TrimRightSpace.induct)
  case (1 s)
  show ?case
  proof (cases "s \<noteq> [] \<and> IsSpace (fst (DecodeLastRuneInString s))")
    case True
    then have "prefix (TrimRightSpace (take (length s - snd (DecodeLastRuneInString s)) s))
                 (take (length s - snd (DecodeLastRuneInString s)) s)"
      using 1 by simp
    then have "prefix (TrimRightSpace (take (length s - snd (DecodeLastRuneInString s)) s)) s"
      using take_is_prefix prefix_order.order_trans by blast
    with True show ?thesis by (subst TrimRightSpace.simps) simp
  next
    case False
    then show ?thesis by (subst TrimRightSpace.simps) auto
  qed
qed

lemma TrimSpace_no_leading_space: "\<not> prefix '' '' (TrimSpace s)"
proof
  assume "prefix '' '' (TrimSpace s)"
  moreover have "prefix (TrimSpace s) (TrimLeftSpace s)"
    unfolding TrimSpace_def by (rule TrimRightSpace_prefix)
  ultimately have "prefix '' '' (TrimLeftSpace s)" by (rule prefix_order.order_trans)
  with TrimLeftSpace_no_space show False by blast
qed

lemma length_segments_le: "length (segments s) \<le> length s"
proof (induction s rule: segments.induct)
  case 1
  then show ?case by simp
next
  case (2 c s)
  have "length (segments (drop (snd (DecodeRuneInString (c # s)) - 1) s))
          \<le> length (drop (snd (DecodeRuneInString (c # s)) - 1) s)" by (rule 2)
  also have "\<dots> \<le> length s" by simp
  finally show ?case by simp
qed

lemma length_runes_le: "length (runes s) \<le> length s"
  by (simp add: runes_def length_segments_le)


lemma truncateText_short:
  "int (length c) \<le> m \<Longrightarrow> truncateText c m = Some c"
  by (simp add: truncateText_def)

lemma truncateText_no_space:
  assumes "0 \<le> m" "nat m < length c" "CHR '' '' \<notin> set (take (nat m) c)"
  shows "truncateText c m = Some (take (nat m) c @ ''...'')"
proof -
  have "\<not> int (length c) \<le> m" using assms(1,2) by linarith
  then show ?thesis
    using assms by (simp add: truncateText_def Let_def LastIndex_space_none)
qed

lemma truncateText_space:
  assumes "0 \<le> m" "nat m < length c" "CHR '' '' \<in> set (take (nat m) c)"
    and "\<not> prefix '' '' c"
  obtains k where "0 < k" "k < nat m" "c ! k = CHR '' ''"
    "CHR '' '' \<notin> set (drop (Suc k) (take (nat m) c))"
    "truncateText c m = Some (take k c @ ''...'')"
proof -
  from LastIndex_space_some[OF assms(3)] obtain k where
    k: "LastIndex_space (take (nat m) c) = int k" "k < length (take (nat m) c)"
       "take (nat m) c ! k = CHR '' ''" "CHR '' '' \<notin> set (drop (Suc k) (take (nat m) c))"
    by blast
  from k(2) have km: "k < nat m" by simp
  with k(3) have ck: "c ! k = CHR '' ''" by simp
  have "k \<noteq> 0"
  proof
    assume "k = 0"
    with ck assms(2) have "prefix '' '' c" by (cases c) simp_all
    with assms(4) show False by blast
  qed
  then have pos: "0 < k" by simp
  have "\<not> int (length c) \<le> m" using assms(1,2) by linarith
  then have "truncateText c m = Some (take k c @ ''...'')"
    using assms(1,2) pos by (simp add: truncateText_def Let_def k(1))
  from that[OF pos km ck k(4) this] show thesis .
qed

lemma clean_content_no_leading_space: "\<not> prefix '' '' (clean_content content)"
  unfolding clean_content_def Let_def by (rule TrimSpace_no_leading_space)


text \<open>
  C5, as amended: for every content and every positive \<open>maxLength\<close>, \<open>GenerateExcerpt\<close>
  returns a string of at most \<open>maxLength + 3\<close> bytes (so at most as many characters). The
  cleaned content is returned whole when it fits. When it does not fit and its first
  \<open>maxLength\<close> bytes hold a space, the excerpt is the cleaned content up to the last such
  space, followed by the ellipsis; when they hold no space, it is the first \<open>maxLength\<close>
  bytes followed by the ellipsis, whatever word that cuts.
\<close>

theorem GenerateExcerpt_bounded:
  assumes "0 < m"
  shows "\<exists>e. GenerateExcerpt content m = Some e
      \<and> length e \<le> nat m + 3
      \<and> length (runes e) \<le> nat m + 3
      \<and> (length (clean_content content) \<le> nat m \<longrightarrow> e = clean_content content)
      \<and> (nat m < length (clean_content content)
           \<and> CHR '' '' \<in> set (take (nat m) (clean_content content)) \<longrightarrow>
          (\<exists>k. 0 < k \<and> k < nat m \<and> clean_content content ! k = CHR '' ''
             \<and> CHR '' '' \<notin> set (drop (Suc k) (take (nat m) (clean_content content)))
             \<and> e = take k (clean_content content) @ ''...''))
      \<and> (nat m < length (clean_content content)
           \<and> CHR '' '' \<notin> set (take (nat m) (clean_content content)) \<longrightarrow>
          e = take (nat m) (clean_content content) @ ''...'')"
proof -
  let ?c = "clean_content content"
  have g: "GenerateExcerpt content m = truncateText ?c m"
    using assms by (simp add: GenerateExcerpt_def)
  have m0: "0 \<le> m" using assms by simp
  consider (short) "length ?c \<le> nat m"
    | (space) "nat m < length ?c" "CHR '' '' \<in> set (take (nat m) ?c)"
    | (nospace) "nat m < length ?c" "CHR '' '' \<notin> set (take (nat m) ?c)"
    by linarith
  then show ?thesis
  proof cases
    case short
    then have t: "truncateText ?c m = Some ?c" using m0 by (intro truncateText_short) simp
    have "length (runes ?c) \<le> length ?c" by (rule length_runes_le)
    with short t show ?thesis unfolding g by simp
  next
    case space
    from truncateText_space[OF m0 space clean_content_no_leading_space] obtain k where
      k: "0 < k" "k < nat m" "?c ! k = CHR '' ''"
         "CHR '' '' \<notin> set (drop (Suc k) (take (nat m) ?c))"
         "truncateText ?c m = Some (take k ?c @ ''...'')"
      by blast
    let ?e = "take k ?c @ ''...''"
    have l: "length ?e \<le> nat m + 3" using k(2) by simp
    have "length (runes ?e) \<le> length ?e" by (rule length_runes_le)
    with l have lr: "length (runes ?e) \<le> nat m + 3" by linarith
    show ?thesis unfolding g k(5) using space k(1-4) l lr by auto
  next
    case nospace
    let ?e = "take (nat m) ?c @ ''...''"
    have t: "truncateText ?c m = Some ?e" by (rule truncateText_no_space[OF m0 nospace])
    have l: "length ?e \<le> nat m + 3" by simp
    have "length (runes ?e) \<le> length ?e" by (rule length_runes_le)
    with l have lr: "length (runes ?e) \<le> nat m + 3" by linarith
    show ?thesis unfolding g t using nospace l lr by auto
  qed
qed

theorem GenerateExcerpt_bounded_witness:
  "(0::int) < 20
   \<and> GenerateExcerpt ''<p>Hello   world, this is a <b>test</b> of things</p>'' 20
       = Some ''Hello world, this...''
   \<and> (\<exists>k. 0 < k \<and> k < nat 20
         \<and> clean_content ''<p>Hello   world, this is a <b>test</b> of things</p>'' ! k = CHR '' ''
         \<and> ''Hello world, this...''
             = take k (clean_content ''<p>Hello   world, this is a <b>test</b> of things</p>'') @ ''...'')"
proof -
  let ?x = "''<p>Hello   world, this is a <b>test</b> of things</p>''"
  have c: "clean_content ?x = ''Hello world, this is a test of things''" by code_simp
  have g: "GenerateExcerpt ?x 20 = Some ''Hello world, this...''" by code_simp
  have h: "(0::int) < 20" by simp
  have p: "nat 20 < length (clean_content ?x)
            \<and> CHR '' '' \<in> set (take (nat 20) (clean_content ?x))"
    unfolding c by simp
  from GenerateExcerpt_bounded[OF h, of ?x] p g
  show ?thesis by auto
qed


text \<open>
  C5 as stated fails: a first word longer than \<open>maxLength\<close> is cut inside the word.
\<close>

theorem GenerateExcerpt_splits_word:
  "GenerateExcerpt ''abcdefghijklmnopqrstuvwxyz'' 20 = Some ''abcdefghijklmnopqrst...''
   \<and> clean_content ''abcdefghijklmnopqrstuvwxyz'' = ''abcdefghijklmnopqrstuvwxyz''
   \<and> \<not> cut_before_space ''abcdefghijklmnopqrstuvwxyz'' ''abcdefghijklmnopqrst...''"
  by code_simp

subsection \<open>The responses\<close>


lemma ToResponse_summary:
  "r_Content (ToResponse b False) = [] \<and> r_MetaTitle (ToResponse b False) = []
   \<and> r_MetaDesc (ToResponse b False) = []"
  by (simp add: ToResponse_def Let_def)

lemma ToResponse_detail:
  "r_Content (ToResponse b True) = Content b \<and> r_MetaTitle (ToResponse b True) = MetaTitle b
   \<and> r_MetaDesc (ToResponse b True) = MetaDesc b"
  by (simp add: ToResponse_def Let_def)

lemma GetBlogs_eq:
  "GetBlogs E db query =
     \<lparr>Blogs = map (\<lambda>blog. ToResponse blog False)
        (order_offset_limit (wrap_int64 ((page_of query - 1) * limit_of query))
           (limit_of query) (matching_rows E db query)),
      Total = int (length (matching_rows E db query)),
      Page = page_of query,
      Limit = limit_of query,
      TotalPages = int_of_float64 (math_Ceil
         (f64_div (float64 (int (length (matching_rows E db query))))
            (float64 (limit_of query)))),
      HasNext = (page_of query < int_of_float64 (math_Ceil
         (f64_div (float64 (int (length (matching_rows E db query))))
            (float64 (limit_of query))))),
      HasPrev = (1 < page_of query)\<rparr>"
  unfolding GetBlogs_def page_of_def limit_of_def matching_rows_def Let_def by (rule refl)

lemma GetBlogs_Blogs:
  "\<exists>bs. Blogs (GetBlogs E db query) = map (\<lambda>blog. ToResponse blog False) bs"
  unfolding GetBlogs_eq by (simp, rule exI, rule refl)


text \<open>
  C9: the summary view (\<open>ToResponse\<close> without content) has empty content, meta title and
  meta description, and every item of a list response is such a view; the detail view
  carries the content, the meta title and the meta description of the record.
\<close>

theorem list_responses_are_summaries:
  "list_all (\<lambda>r. r_Content r = [] \<and> r_MetaTitle r = [] \<and> r_MetaDesc r = [])
     (Blogs (GetBlogs E db query))
   \<and> r_Content (ToResponse b False) = [] \<and> r_MetaTitle (ToResponse b False) = []
   \<and> r_MetaDesc (ToResponse b False) = []
   \<and> r_Content (ToResponse b True) = Content b
   \<and> r_MetaTitle (ToResponse b True) = MetaTitle b
   \<and> r_MetaDesc (ToResponse b True) = MetaDesc b"
proof -
  obtain bs where bs: "Blogs (GetBlogs E db query) = map (\<lambda>blog. ToResponse blog False) bs"
    using GetBlogs_Blogs by blast
  have "list_all (\<lambda>r. r_Content r = [] \<and> r_MetaTitle r = [] \<and> r_MetaDesc r = [])
          (Blogs (GetBlogs E db query))"
    unfolding bs list_all_iff using ToResponse_summary by simp
  with ToResponse_summary[of b] ToResponse_detail[of b] show ?thesis by blast
qed

subsection \<open>GetBlogBySlug\<close>






subsection \<open>Rounding to float64\<close>


lemma bit_length_bounds: "0 < n \<Longrightarrow> 2 ^ (bit_length n - 1) \<le> n \<and> n < 2 ^ bit_length n"
proof (induction n rule: bit_length.induct)
  case (1 n)
  show ?case
  proof (cases "n div 2 = 0")
    case True
    with 1 have "n = 1" by (simp add: div_eq_0_iff)
    then show ?thesis by (simp add: bit_length.simps)
  next
    case False
    then have "0 < n div 2" by simp
    with 1 have ih: "2 ^ (bit_length (n div 2) - 1) \<le> n div 2" "n div 2 < 2 ^ bit_length (n div 2)"
      by simp_all
    have bl: "bit_length n = Suc (bit_length (n div 2))" using 1 by (subst bit_length.simps) simp
    have pos: "0 < bit_length (n div 2)" using False by (subst bit_length.simps) simp
    then have "2 ^ bit_length (n div 2) = 2 * 2 ^ (bit_length (n div 2) - 1)"
      by (cases "bit_length (n div 2)") simp_all
    have "2 ^ (bit_length n - 1) = (2::nat) ^ bit_length (n div 2)" by (simp add: bl)
    also have "\<dots> = 2 * 2 ^ (bit_length (n div 2) - 1)" by fact
    also have "\<dots> \<le> 2 * (n div 2)" using ih(1) by simp
    also have "\<dots> \<le> n" by simp
    finally have a: "2 ^ (bit_length n - 1) \<le> n" .
    have "n < 2 * (n div 2) + 2" by presburger
    also have "\<dots> \<le> 2 * 2 ^ bit_length (n div 2)" using ih(2) by simp
    also have "\<dots> = 2 ^ bit_length n" by (simp add: bl)
    finally show ?thesis using a by simp
  qed
qed


lemma ilog2_bounds:
  assumes "0 < x"
  shows "2 powi (ilog2 x) \<le> x \<and> x < 2 powi (ilog2 x + 1)"
proof (cases "1 \<le> x")
  case True
  define N where "N = nat \<lfloor>x\<rfloor>"
  have fl: "1 \<le> \<lfloor>x\<rfloor>" using True by linarith
  then have N: "0 < N" "of_nat N = (of_int \<lfloor>x\<rfloor> :: rat)" by (simp_all add: N_def)
  from bit_length_bounds[OF N(1)] have b: "2 ^ (bit_length N - 1) \<le> N" "N < 2 ^ bit_length N" by simp_all
  have pos: "0 < bit_length N" using N(1) by (subst bit_length.simps) simp
  have e: "ilog2 x = int (bit_length N - 1)" using True pos by (simp add: ilog2_def N_def)
  have e1: "ilog2 x + 1 = int (bit_length N)" using e pos by simp
  have "(2::rat) ^ (bit_length N - 1) \<le> of_nat N" using b(1) by (metis of_nat_le_iff of_nat_numeral of_nat_power)
  also have "\<dots> \<le> x" unfolding N(2) by simp
  finally have lo: "2 powi (ilog2 x) \<le> x" unfolding e by simp
  have "Suc N \<le> 2 ^ bit_length N" using b(2) by simp
  then have "(of_nat (Suc N) :: rat) \<le> 2 ^ bit_length N" by (metis of_nat_le_iff of_nat_numeral of_nat_power)
  moreover have "x < of_nat (Suc N)" using N(2) by simp linarith
  ultimately have "x < 2 ^ bit_length N" by linarith
  then have hi: "x < 2 powi (ilog2 x + 1)" unfolding e1 by simp
  from lo hi show ?thesis ..
next
  case False
  define y where "y = 1 / x"
  have y: "1 < y" "0 < y" "x = 1 / y" using assms False by (simp_all add: y_def)
  define M where "M = nat (\<lceil>y\<rceil> - 1)"
  have "1 < \<lceil>y\<rceil>" using y(1) by linarith
  then have M: "0 < M" "of_nat M = (of_int \<lceil>y\<rceil> :: rat) - 1" by (simp_all add: M_def)
  from bit_length_bounds[OF M(1)] have b: "2 ^ (bit_length M - 1) \<le> M" "M < 2 ^ bit_length M" by simp_all
  have pos: "0 < bit_length M" using M(1) by (subst bit_length.simps) simp
  have e: "ilog2 x = - int (bit_length M)" using False by (simp add: ilog2_def M_def y_def)
  have e1: "ilog2 x + 1 = - int (bit_length M - 1)" using e pos by simp
  have "Suc M \<le> 2 ^ bit_length M" using b(2) by simp
  then have "(of_nat (Suc M) :: rat) \<le> 2 ^ bit_length M" by (metis of_nat_le_iff of_nat_numeral of_nat_power)
  moreover have "y \<le> of_nat (Suc M)" using M(2) by simp
  ultimately have yl: "y \<le> 2 ^ bit_length M" by linarith
  have p1: "2 powi (ilog2 x) = 1 / (2::rat) ^ bit_length M"
    unfolding e by (simp add: power_int_minus field_simps)
  have "1 / (2::rat) ^ bit_length M \<le> 1 / y" using yl y(2) by (simp add: frac_le)
  then have lo: "2 powi (ilog2 x) \<le> x" unfolding p1 using y(3) by simp
  have "(2::rat) ^ (bit_length M - 1) \<le> of_nat M" using b(1) by (metis of_nat_le_iff of_nat_numeral of_nat_power)
  also have "\<dots> < y" unfolding M(2) by linarith
  finally have yh: "2 ^ (bit_length M - 1) < y" .
  have p2: "2 powi (ilog2 x + 1) = 1 / (2::rat) ^ (bit_length M - 1)"
    unfolding e1 by (simp add: power_int_minus field_simps)
  have "1 / y < 1 / (2::rat) ^ (bit_length M - 1)" using yh by (simp add: frac_less2)
  then have hi: "x < 2 powi (ilog2 x + 1)" unfolding p2 using y(3) by simp
  from lo hi show ?thesis ..
qed

lemma round_half_even_error: "\<bar>of_int (round_half_even y) - y\<bar> \<le> 1 / 2"
proof -
  define d where "d = y - of_int \<lfloor>y\<rfloor>"
  have d: "0 \<le> d" "d < 1" unfolding d_def by linarith+
  have y: "y = of_int \<lfloor>y\<rfloor> + d" by (simp add: d_def)
  consider "d < 1 / 2" | "1 / 2 < d" | "d = 1 / 2" by linarith
  then show ?thesis
  proof cases
    case 1
    then have "round_half_even y = \<lfloor>y\<rfloor>" by (simp add: round_half_even_def d_def)
    then have "of_int (round_half_even y) - y = - d" by (simp add: d_def)
    then show ?thesis using 1 d by simp
  next
    case 2
    then have "round_half_even y = \<lfloor>y\<rfloor> + 1" by (simp add: round_half_even_def d_def)
    then have "of_int (round_half_even y) - y = 1 - d" by (simp add: d_def)
    then show ?thesis using 2 d by simp
  next
    case 3
    then have "round_half_even y = \<lfloor>y\<rfloor> \<or> round_half_even y = \<lfloor>y\<rfloor> + 1"
      by (simp add: round_half_even_def d_def Let_def)
    then have "of_int (round_half_even y) - y = - d \<or> of_int (round_half_even y) - y = 1 - d"
      by (auto simp add: d_def)
    then show ?thesis using 3 by auto
  qed
qed

lemma round_half_even_of_int: "round_half_even (of_int k) = k"
  by (simp add: round_half_even_def)


lemma f64_round_error:
  assumes "0 < x"
  shows "\<bar>f64_round x - x\<bar> \<le> x / 2 ^ 53"
proof -
  define e where "e = ilog2 x"
  define u :: rat where "u = 2 powi (e - 52)"
  have u: "0 < u" by (simp add: u_def)
  have ax: "\<bar>x\<bar> = x" using assms by simp
  have f: "f64_round x = of_int (round_half_even (x / u)) * u"
    using assms by (simp add: f64_round_def Let_def ax u_def e_def)
  have "\<bar>of_int (round_half_even (x / u)) - x / u\<bar> \<le> 1 / 2" by (rule round_half_even_error)
  then have "\<bar>of_int (round_half_even (x / u)) - x / u\<bar> * u \<le> 1 / 2 * u"
    using u by (intro mult_right_mono) simp_all
  moreover have "\<bar>of_int (round_half_even (x / u)) - x / u\<bar> * u
                   = \<bar>of_int (round_half_even (x / u)) * u - x\<bar>"
  proof -
    have "(of_int (round_half_even (x / u)) - x / u) * u
            = of_int (round_half_even (x / u)) * u - x"
      using u by (simp add: left_diff_distrib)
    moreover have "\<bar>(of_int (round_half_even (x / u)) - x / u) * u\<bar>
            = \<bar>of_int (round_half_even (x / u)) - x / u\<bar> * u"
      using u by (simp add: abs_mult)
    ultimately show ?thesis by simp
  qed
  ultimately have 1: "\<bar>f64_round x - x\<bar> \<le> u / 2" unfolding f by simp
  have "u = 2 powi e / 2 ^ 52" unfolding u_def by (simp add: power_int_diff)
  moreover have "2 powi e \<le> x" using ilog2_bounds[OF assms] by (simp add: e_def)
  ultimately have "u \<le> x / 2 ^ 52" by (simp add: divide_right_mono)
  then have "u / 2 \<le> x / 2 ^ 53" by simp
  with 1 show ?thesis by linarith
qed

lemma f64_round_of_nat:
  assumes "n < 2 ^ 53"
  shows "f64_round (of_nat n) = of_nat n"
proof (cases "n = 0")
  case True
  then show ?thesis by (simp add: f64_round_def)
next
  case False
  let ?x = "of_nat n :: rat"
  have x: "1 \<le> ?x" "0 < ?x" using False by simp_all
  have fl: "nat \<lfloor>?x\<rfloor> = n" by simp
  have pos: "0 < bit_length n" using False by (subst bit_length.simps) simp
  define k where "k = bit_length n - 1"
  have e: "ilog2 ?x = int k" using x(1) pos by (simp add: ilog2_def fl k_def)
  from bit_length_bounds[of n] False have "2 ^ k \<le> n" by (simp add: k_def)
  with assms have "(2::nat) ^ k < 2 ^ 53" by linarith
  then have k: "k < 53" by (rule power_less_imp_less_exp[rotated]) simp
  define j where "j = 52 - k"
  have jk: "int k - 52 = - int j" using k by (simp add: j_def)
  have u: "2 powi (ilog2 \<bar>?x\<bar> - 52) = 1 / (2::rat) ^ j"
    using x by (simp add: e jk power_int_minus field_simps)
  have "?x / (1 / 2 ^ j) = of_int (int n * 2 ^ j)" by simp
  then have r: "round_half_even (?x / (1 / 2 ^ j)) = int n * 2 ^ j"
    by (simp only: round_half_even_of_int)
  show ?thesis
    using False unfolding f64_round_def Let_def u r by simp
qed

lemma f64_ceil_div:
  assumes "a < 2 ^ 53" "0 < b" "b < 2 ^ 53"
  shows "int_of_float64 (math_Ceil (f64_div (float64 (int a)) (float64 (int b))))
           = \<lceil>(of_nat a :: rat) / of_nat b\<rceil>"
proof -
  let ?q = "(of_nat a :: rat) / of_nat b"
  have fa: "float64 (int a) = of_nat a" using f64_round_of_nat[OF assms(1)] by (simp add: float64_def)
  have fb: "float64 (int b) = of_nat b" using f64_round_of_nat[OF assms(3)] by (simp add: float64_def)
  have q0: "0 \<le> ?q" by simp
  have c: "\<lceil>f64_round ?q\<rceil> = \<lceil>?q\<rceil>"
  proof (cases "b dvd a")
    case True
    then obtain k where k: "a = b * k" by (auto simp: dvd_def)
    then have qk: "?q = of_nat k" using assms(2) by simp
    have "k \<le> a" unfolding k using assms(2) by (cases b) simp_all
    with assms(1) have "k < 2 ^ 53" by linarith
    then show ?thesis unfolding qk by (simp only: f64_round_of_nat)
  next
    case False
    then have a0: "0 < a" by (cases a) simp_all
    then have qpos: "0 < ?q" using assms(2) by simp
    define n where "n = a div b"
    define r where "r = a mod b"
    have ar: "a = n * b + r" "r < b" using assms(2) by (simp_all add: n_def r_def)
    have r0: "0 < r" using False by (simp add: r_def mod_greater_zero_iff_not_dvd)
    have bq: "(of_nat b :: rat) * ?q = of_nat a" using assms(2) by simp
    have qn: "?q = of_nat n + of_nat r / of_nat b"
      using assms(2) by (subst ar(1)) (simp add: field_simps)
    have lo: "of_nat n + 1 / of_nat b \<le> ?q"
      unfolding qn using r0 assms(2) by (simp add: divide_right_mono)
    have "Suc r \<le> b" using ar(2) by simp
    then have "(of_nat (Suc r) :: rat) \<le> of_nat b" by (simp only: of_nat_le_iff)
    then have "of_nat r + (1::rat) \<le> of_nat b" by simp
    then have "(of_nat r :: rat) / of_nat b \<le> (of_nat b - 1) / of_nat b"
      using assms(2) by (intro divide_right_mono) simp_all
    also have "\<dots> = 1 - 1 / of_nat b" using assms(2) by (simp add: field_simps)
    finally have hi: "?q \<le> of_nat n + 1 - 1 / of_nat b" unfolding qn by simp
    have "?q / 2 ^ 53 < 1 / of_nat b"
    proof -
      have "(of_nat a :: rat) < 2 ^ 53" using assms(1) by (metis of_nat_less_iff of_nat_numeral of_nat_power)
      then have "(of_nat a :: rat) / 2 ^ 53 < 1" by simp
      then have "((of_nat a :: rat) / 2 ^ 53) / of_nat b < 1 / of_nat b"
        using assms(2) by (intro divide_strict_right_mono) simp_all
      then show ?thesis by (simp add: field_simps)
    qed
    with f64_round_error[OF qpos] have err: "\<bar>f64_round ?q - ?q\<bar> < 1 / of_nat b" by linarith
    from err lo have 1: "of_nat n < f64_round ?q" by linarith
    from err hi have 2: "f64_round ?q < of_nat n + 1" by linarith
    have ib: "0 < 1 / (of_nat b :: rat)" using assms(2) by simp
    have 3: "of_nat n < ?q" using lo ib by linarith
    have 4: "?q < of_nat n + 1" using hi ib by linarith
    have "\<lceil>f64_round ?q\<rceil> = int n + 1" using 1 2 by (simp add: ceiling_eq_iff)
    moreover have "\<lceil>?q\<rceil> = int n + 1" using 3 4 by (simp add: ceiling_eq_iff)
    ultimately show ?thesis by simp
  qed
  have "\<lceil>0::rat\<rceil> \<le> \<lceil>?q\<rceil>" using q0 by (rule ceiling_mono)
  then have "0 \<le> \<lceil>?q\<rceil>" by simp
  then show ?thesis
    unfolding f64_div_def fa fb math_Ceil_def int_of_float64_def c by simp
qed

subsection \<open>Pagination of the listing\<close>

lemma Atoi_syntax_zero: "snd (Atoi s) = Some ErrSyntax \<Longrightarrow> fst (Atoi s) = 0"
  by (auto simp: Atoi_def ParseInt_def Let_def split: if_splits)

lemma page_of_ge1: "1 \<le> page_of query"
  by (simp add: page_of_def)

lemma limit_of_range: "1 \<le> limit_of query \<and> limit_of query \<le> 100"
  by (simp add: limit_of_def)

lemma length_where_published: "length (where_published p q) \<le> length q"
  by (simp add: where_published_def split: option.splits)

lemma length_where_featured: "length (where_featured p q) \<le> length q"
  by (simp add: where_featured_def split: option.splits)

lemma length_where_search: "length (where_search E p q) \<le> length q"
  by (simp add: where_search_def Let_def)

lemma length_matching_rows: "length (matching_rows E db query) \<le> length (rows db)"
  unfolding matching_rows_def
  by (meson length_where_published length_where_featured length_where_search le_trans)

lemma length_order_offset_limit:
  "0 \<le> limit \<Longrightarrow> int (length (order_offset_limit offset limit q)) \<le> limit"
  by (simp add: order_offset_limit_def Let_def)

lemma ceiling_div_int:
  fixes a b :: int
  assumes "0 < b"
  shows "\<lceil>(of_int a :: rat) / of_int b\<rceil> = (a + b - 1) div b"
proof -
  have "\<lceil>(of_int a :: rat) / of_int b\<rceil> = - ((- a) div b)"
    by (simp add: ceiling_divide_eq_div)
  also have "\<dots> = (a + b - 1) div b"
  proof (cases "a mod b = 0")
    case True
    then have "b dvd a" by (simp add: dvd_eq_mod_eq_0)
    then obtain k where k: "a = b * k" by (auto simp: dvd_def)
    have "(b * k + (b - 1)) div b = k + (b - 1) div b" using assms by simp
    also have "(b - 1) div b = 0" using assms by (simp add: div_pos_pos_trivial)
    finally have "(a + b - 1) div b = k" by (simp add: k algebra_simps)
    moreover have "- a = b * (- k)" by (simp add: k)
    then have "(- a) div b = - k" using assms by (metis nonzero_mult_div_cancel_left less_irrefl)
    then have "- ((- a) div b) = k" by simp
    ultimately show ?thesis by simp
  next
    case False
    define q r where "q = a div b" and "r = a mod b"
    have a: "a = b * q + r" by (simp add: q_def r_def)
    have "0 \<le> a mod b" using assms by (rule pos_mod_sign)
    with False have r0: "0 < r" by (simp add: r_def)
    have "r < b" unfolding r_def using assms by (rule pos_mod_bound)
    with r0 have r: "0 < r" "r < b" by simp_all
    have "(- a) div b = - q - 1" using False assms by (simp add: zdiv_zminus1_eq_if q_def)
    then have 1: "- ((- a) div b) = q + 1" by simp
    have "a + b - 1 = b * (q + 1) + (r - 1)" by (simp add: a algebra_simps)
    then have "(a + b - 1) div b = (q + 1) + (r - 1) div b" using assms
      by (metis div_mult_self2 add.commute less_irrefl)
    also have "(r - 1) div b = 0" using r by (simp add: div_pos_pos_trivial)
    finally show ?thesis using 1 by simp
  qed
  finally show ?thesis .
qed

lemma TotalPages_exact:
  assumes "length (rows db) < 2 ^ 53"
  shows "TotalPages (GetBlogs E db query)
     = \<lceil>(of_int (Total (GetBlogs E db query)) :: rat) / of_int (Limit (GetBlogs E db query))\<rceil>"
proof -
  let ?a = "length (matching_rows E db query)"
  define b where "b = nat (limit_of query)"
  have l: "1 \<le> limit_of query" "limit_of query \<le> 100" using limit_of_range by simp_all
  then have b: "0 < b" "b < 2 ^ 53" "int b = limit_of query" by (simp_all add: b_def)
  have a: "?a < 2 ^ 53" using length_matching_rows[of E db query] assms by linarith
  from f64_ceil_div[OF a b(1,2)] have
    "int_of_float64 (math_Ceil (f64_div (float64 (int ?a)) (float64 (limit_of query))))
       = \<lceil>(of_nat ?a :: rat) / of_nat b\<rceil>" by (simp add: b(3))
  also have "(of_nat b :: rat) = of_int (limit_of query)" using b(3) by (metis of_int_of_nat_eq)
  finally show ?thesis unfolding GetBlogs_eq by simp
qed

text \<open>
  What \<open>GetBlogs\<close> makes of the page and limit parameters and of the count, for a table
  of fewer than \<open>2 ^ 53\<close> rows: the effective page is 1 whenever \<open>strconv.Atoi\<close> yields a
  value below 1 for the page parameter, which covers every parameter it rejects with a
  syntax error, and is the value read otherwise; the effective limit is 10 whenever the
  value read for the limit parameter is below 1 or above 100, and the value read
  otherwise; the total is the number of matching rows; \<open>total_pages\<close> is the exact
  ceiling of total / limit, computed by the handler in double precision, hence 0 for an
  empty result; \<open>has_next\<close> is \<open>page < total_pages\<close>; \<open>has_prev\<close> is \<open>1 < page\<close>; and
  at most limit items are returned.
\<close>

theorem GetBlogs_pagination:
  assumes "length (rows db) < 2 ^ 53"
  shows
    "(fst (Atoi (DefaultQuery query ''page'' ''1'')) < 1
        \<or> snd (Atoi (DefaultQuery query ''page'' ''1'')) = Some ErrSyntax
      \<longrightarrow> Page (GetBlogs E db query) = 1)
     \<and> (1 \<le> fst (Atoi (DefaultQuery query ''page'' ''1''))
      \<longrightarrow> Page (GetBlogs E db query) = fst (Atoi (DefaultQuery query ''page'' ''1'')))
     \<and> (fst (Atoi (DefaultQuery query ''limit'' ''10'')) < 1
        \<or> 100 < fst (Atoi (DefaultQuery query ''limit'' ''10''))
      \<longrightarrow> Limit (GetBlogs E db query) = 10)
     \<and> (1 \<le> fst (Atoi (DefaultQuery query ''limit'' ''10''))
        \<and> fst (Atoi (DefaultQuery query ''limit'' ''10'')) \<le> 100
      \<longrightarrow> Limit (GetBlogs E db query) = fst (Atoi (DefaultQuery query ''limit'' ''10'')))
     \<and> Total (GetBlogs E db query) = int (length (matching_rows E db query))
     \<and> TotalPages (GetBlogs E db query)
         = \<lceil>(of_int (Total (GetBlogs E db query)) :: rat)
              / of_int (Limit (GetBlogs E db query))\<rceil>
     \<and> TotalPages (GetBlogs E db query)
         = (Total (GetBlogs E db query) + Limit (GetBlogs E db query) - 1)
             div Limit (GetBlogs E db query)
     \<and> (Total (GetBlogs E db query) = 0 \<longrightarrow> TotalPages (GetBlogs E db query) = 0)
     \<and> HasNext (GetBlogs E db query)
         = (Page (GetBlogs E db query) < TotalPages (GetBlogs E db query))
     \<and> HasPrev (GetBlogs E db query) = (1 < Page (GetBlogs E db query))
     \<and> int (length (Blogs (GetBlogs E db query))) \<le> Limit (GetBlogs E db query)"
proof -
  let ?p = "Atoi (DefaultQuery query ''page'' ''1'')"
  let ?l = "Atoi (DefaultQuery query ''limit'' ''10'')"
  let ?r = "GetBlogs E db query"
  have P: "Page ?r = page_of query" and L: "Limit ?r = limit_of query"
    and T: "Total ?r = int (length (matching_rows E db query))"
    and N: "HasNext ?r = (Page ?r < TotalPages ?r)" and V: "HasPrev ?r = (1 < Page ?r)"
    unfolding GetBlogs_eq by simp_all
  have l: "1 \<le> limit_of query" using limit_of_range by simp
  have 1: "fst ?p < 1 \<or> snd ?p = Some ErrSyntax \<longrightarrow> Page ?r = 1"
    unfolding P page_of_def using Atoi_syntax_zero[of "DefaultQuery query ''page'' ''1''"] by auto
  have 2: "1 \<le> fst ?p \<longrightarrow> Page ?r = fst ?p" unfolding P page_of_def by simp
  have 3: "fst ?l < 1 \<or> 100 < fst ?l \<longrightarrow> Limit ?r = 10" unfolding L limit_of_def by simp
  have 4: "1 \<le> fst ?l \<and> fst ?l \<le> 100 \<longrightarrow> Limit ?r = fst ?l" unfolding L limit_of_def by simp
  have 5: "TotalPages ?r = \<lceil>(of_int (Total ?r) :: rat) / of_int (Limit ?r)\<rceil>"
    by (rule TotalPages_exact[OF assms])
  have 6: "TotalPages ?r = (Total ?r + Limit ?r - 1) div Limit ?r"
    unfolding 5 using l by (intro ceiling_div_int) (simp add: L)
  have 7: "Total ?r = 0 \<longrightarrow> TotalPages ?r = 0" unfolding 5 by simp
  have 8: "int (length (Blogs ?r)) \<le> Limit ?r"
    unfolding L using length_order_offset_limit[of "limit_of query"] l
    by (simp add: GetBlogs_eq)
  show ?thesis by (intro conjI 1 2 3 4 5 6 7 8 T N V)
qed

theorem GetBlogs_pagination_witness:
  "length (rows example_db) < 2 ^ 53
   \<and> Page (GetBlogs ascii_env example_db [''page'' \<mapsto> ''0'', ''limit'' \<mapsto> ''2'']) = 1
   \<and> Limit (GetBlogs ascii_env example_db [''page'' \<mapsto> ''0'', ''limit'' \<mapsto> ''2'']) = 2
   \<and> Total (GetBlogs ascii_env example_db [''page'' \<mapsto> ''0'', ''limit'' \<mapsto> ''2'']) = 3
   \<and> TotalPages (GetBlogs ascii_env example_db [''page'' \<mapsto> ''0'', ''limit'' \<mapsto> ''2''])
       = (3 + 2 - 1) div 2
   \<and> HasNext (GetBlogs ascii_env example_db [''page'' \<mapsto> ''0'', ''limit'' \<mapsto> ''2''])
   \<and> length (Blogs (GetBlogs ascii_env example_db [''page'' \<mapsto> ''0'', ''limit'' \<mapsto> ''2''])) = 2"
proof -
  let ?q = "[''page'' \<mapsto> ''0'', ''limit'' \<mapsto> ''2'']"
  have h: "length (rows example_db) < 2 ^ 53" by (simp add: example_db_def)
  have a: "fst (Atoi (DefaultQuery ?q ''page'' ''1'')) = 0"
    "fst (Atoi (DefaultQuery ?q ''limit'' ''10'')) = 2" by code_simp+
  have t: "length (matching_rows ascii_env example_db ?q) = 3" by code_simp
  have n: "length (Blogs (GetBlogs ascii_env example_db ?q)) = 2" by code_simp
  note th = GetBlogs_pagination[OF h, of ?q ascii_env]
  let ?r = "GetBlogs ascii_env example_db ?q"
  from th a have P: "Page ?r = 1" by simp
  from th a have L: "Limit ?r = 2" by simp
  from th t have T: "Total ?r = 3" by simp
  from th have "TotalPages ?r = (Total ?r + Limit ?r - 1) div Limit ?r" by blast
  then have TP: "TotalPages ?r = (3 + 2 - 1) div 2" unfolding T L .
  from th have "HasNext ?r = (Page ?r < TotalPages ?r)" by blast
  then have HN: "HasNext ?r" unfolding P TP by simp
  show ?thesis by (intro conjI h P L T TP HN n)
qed

lemma parse_uint_loop_syntax:
  "\<not> list_all is_digit cs \<Longrightarrow> length cs \<le> 19 \<Longrightarrow> n < 10 ^ (19 - length cs)
   \<Longrightarrow> parse_uint_loop (2 ^ 64 - 1) n cs = (0, Some ErrSyntax)"
proof (induction cs arbitrary: n)
  case Nil
  then show ?case by simp
next
  case (Cons c cs)
  show ?case
  proof (cases "is_digit c")
    case False
    then show ?thesis by simp
  next
    case True
    let ?d = "of_char c - (0x30::nat)"
    let ?n1 = "n * 10 + ?d"
    let ?X = "(10::nat) ^ (18 - length cs)"
    from True have d: "?d \<le> 9" by (auto simp: is_digit_def)
    from Cons.prems(2) have len: "length cs \<le> 18" by simp
    then have j: "19 - length cs = Suc (18 - length cs)" by simp
    from Cons.prems(3) have nlt: "n < ?X" by simp
    have "?X \<le> 10 ^ 18" by (rule power_increasing) simp_all
    with nlt have "n < 10 ^ 18" by (rule less_le_trans)
    then have n: "\<not> (2 ^ 64 - 1) div 10 + 1 \<le> n" by simp
    have n1: "?n1 < 10 ^ (19 - length cs)" unfolding j power_Suc using nlt d by linarith
    have "(10::nat) ^ (19 - length cs) \<le> 10 ^ 19" by (rule power_increasing) simp_all
    with n1 have "?n1 < 10 ^ 19" by (rule less_le_trans)
    then have m: "\<not> 2 ^ 64 - 1 < ?n1" by simp
    have "parse_uint_loop (2 ^ 64 - 1) ?n1 cs = (0, Some ErrSyntax)"
      using Cons.prems(1) True len n1 by (intro Cons.IH) simp_all
    with True n m show ?thesis by (simp add: Let_def)
  qed
qed

lemma Atoi_syntax:
  assumes "\<not> is_decimal s" "length s \<le> 19"
  shows "Atoi s = (0, Some ErrSyntax)"
proof (cases "s = []")
  case True
  then show ?thesis by (simp add: Atoi_def ParseInt_def)
next
  case False
  let ?s1 = "if hd s = CHR ''+'' \<or> hd s = CHR ''-'' then tl s else s"
  from assms(1) False have nd: "?s1 = [] \<or> \<not> list_all is_digit ?s1"
    by (auto simp: is_decimal_def Let_def split: if_splits)
  have len: "length ?s1 \<le> 19" using assms(2) by (cases s) simp_all
  have "ParseUint ?s1 0 = (0, Some ErrSyntax)"
  proof (cases "?s1 = []")
    case True
    then show ?thesis by (simp add: ParseUint_def)
  next
    case ne: False
    with nd have "\<not> list_all is_digit ?s1" by simp
    then have "parse_uint_loop (2 ^ 64 - 1) 0 ?s1 = (0, Some ErrSyntax)"
      using len by (intro parse_uint_loop_syntax) simp_all
    with ne show ?thesis by (simp add: ParseUint_def)
  qed
  then show ?thesis using False by (simp add: Atoi_def ParseInt_def Let_def)
qed

text \<open>
  A page parameter of at most 19 bytes that is not a decimal number (digits after an
  optional sign) is a syntax error for \<open>Atoi\<close>, whose value is then 0, and the effective
  page is 1.
\<close>

lemma GetBlogs_page_syntax:
  assumes "\<not> is_decimal (DefaultQuery query ''page'' ''1'')"
    "length (DefaultQuery query ''page'' ''1'') \<le> 19"
  shows "Page (GetBlogs E db query) = 1"
  using Atoi_syntax[OF assms] by (simp add: GetBlogs_eq page_of_def)

lemma foldl_digits_ge: "(n::nat) \<le> foldl (\<lambda>n c. n * 10 + (of_char c - 0x30)) n cs"
proof (induction cs arbitrary: n)
  case Nil
  then show ?case by simp
next
  case (Cons c cs)
  have "n \<le> n * 10 + (of_char c - 0x30)" by simp
  also have "\<dots> \<le> foldl (\<lambda>n c. n * 10 + (of_char c - 0x30)) (n * 10 + (of_char c - 0x30)) cs"
    by (rule Cons.IH)
  finally show ?case by simp
qed

lemma parse_uint_loop_value:
  "list_all is_digit cs \<Longrightarrow> foldl (\<lambda>n c. n * 10 + (of_char c - 0x30)) n cs \<le> 2 ^ 64 - 1
   \<Longrightarrow> parse_uint_loop (2 ^ 64 - 1) n cs
       = (foldl (\<lambda>n c. n * 10 + (of_char c - 0x30)) n cs, None)"
proof (induction cs arbitrary: n)
  case Nil
  then show ?case by simp
next
  case (Cons c cs)
  let ?f = "\<lambda>n c. n * 10 + (of_char c - (0x30::nat))"
  let ?n1 = "?f n c"
  from Cons.prems have d: "is_digit c" "list_all is_digit cs" by simp_all
  from Cons.prems(2) have le: "foldl ?f ?n1 cs \<le> 2 ^ 64 - 1" by simp
  have "?n1 \<le> foldl ?f ?n1 cs" by (rule foldl_digits_ge)
  from this le have n1: "?n1 \<le> 2 ^ 64 - 1" by (rule le_trans)
  then have m: "\<not> 2 ^ 64 - 1 < ?n1" by simp
  from n1 have "n * 10 \<le> 2 ^ 64 - 1" by simp
  then have n: "\<not> (2 ^ 64 - 1) div 10 + 1 \<le> n" by simp
  have "parse_uint_loop (2 ^ 64 - 1) ?n1 cs = (foldl ?f ?n1 cs, None)"
    using d(2) le by (rule Cons.IH)
  with d(1) n m show ?case by (simp add: Let_def)
qed

lemma parse_uint_loop_range:
  "list_all is_digit cs \<Longrightarrow> 2 ^ 64 - 1 < foldl (\<lambda>n c. n * 10 + (of_char c - 0x30)) n cs
   \<Longrightarrow> n \<le> 2 ^ 64 - 1
   \<Longrightarrow> parse_uint_loop (2 ^ 64 - 1) n cs = (2 ^ 64 - 1, Some ErrRange)"
proof (induction cs arbitrary: n)
  case Nil
  then show ?case by simp
next
  case (Cons c cs)
  let ?f = "\<lambda>n c. n * 10 + (of_char c - (0x30::nat))"
  let ?n1 = "?f n c"
  from Cons.prems have d: "is_digit c" "list_all is_digit cs" by simp_all
  from Cons.prems(2) have gt: "2 ^ 64 - 1 < foldl ?f ?n1 cs" by simp
  show ?case
  proof (cases "(2 ^ 64 - 1) div 10 + 1 \<le> n \<or> 2 ^ 64 - 1 < ?n1")
    case True
    with d(1) show ?thesis by (auto simp: Let_def)
  next
    case False
    then have n: "\<not> (2 ^ 64 - 1) div 10 + 1 \<le> n" and m: "\<not> 2 ^ 64 - 1 < ?n1" by simp_all
    from m have "?n1 \<le> 2 ^ 64 - 1" by simp
    with d(2) gt have "parse_uint_loop (2 ^ 64 - 1) ?n1 cs = (2 ^ 64 - 1, Some ErrRange)"
      by (rule Cons.IH)
    with d(1) n m show ?thesis by (simp add: Let_def)
  qed
qed

lemma parse_uint_loop_not_digits:
  "\<not> list_all is_digit cs
   \<Longrightarrow> parse_uint_loop (2 ^ 64 - 1) n cs = (0, Some ErrSyntax)
       \<or> parse_uint_loop (2 ^ 64 - 1) n cs = (2 ^ 64 - 1, Some ErrRange)"
proof (induction cs arbitrary: n)
  case Nil
  then show ?case by simp
next
  case (Cons c cs)
  show ?case
  proof (cases "is_digit c")
    case False
    then show ?thesis by simp
  next
    case True
    with Cons.prems have "\<not> list_all is_digit cs" by simp
    from Cons.IH[OF this] True show ?thesis by (simp add: Let_def)
  qed
qed

lemma ParseUint_digits:
  assumes "cs \<noteq> []" "list_all is_digit cs"
  shows "ParseUint cs 0 = (if digits_value cs \<le> 2 ^ 64 - 1 then (digits_value cs, None)
                           else (2 ^ 64 - 1, Some ErrRange))"
proof (cases "digits_value cs \<le> 2 ^ 64 - 1")
  case True
  then show ?thesis
    using parse_uint_loop_value[OF assms(2), of 0] assms(1)
    by (simp add: ParseUint_def digits_value_def)
next
  case False
  then show ?thesis
    using parse_uint_loop_range[OF assms(2), of 0] assms(1)
    by (simp add: ParseUint_def digits_value_def)
qed

lemma Atoi_decimal:
  assumes "is_decimal s"
  shows "fst (Atoi s) = max (- (2 ^ 63)) (min (2 ^ 63 - 1) (decimal_value s))"
proof -
  let ?sg = "hd s = CHR ''+'' \<or> hd s = CHR ''-''"
  let ?d = "if ?sg then tl s else s"
  from assms have ne: "s \<noteq> []" and d: "?d \<noteq> []" "list_all is_digit ?d"
    by (auto simp: is_decimal_def Let_def split: if_splits)
  note P = ParseUint_digits[OF d]
  have v: "decimal_value s = (if hd s = CHR ''-'' then - int (digits_value ?d)
                              else int (digits_value ?d))"
    using ne by (simp add: decimal_value_def)
  show ?thesis
  proof (cases "digits_value ?d \<le> 2 ^ 64 - 1")
    case True
    with P have "ParseUint ?d 0 = (digits_value ?d, None)" by simp
    then show ?thesis unfolding v using ne
      by (auto simp: Atoi_def ParseInt_def Let_def)
  next
    case False
    with P have "ParseUint ?d 0 = (2 ^ 64 - 1, Some ErrRange)" by simp
    moreover from False have "2 ^ 63 < digits_value ?d" by simp
    ultimately show ?thesis unfolding v using ne
      by (auto simp: Atoi_def ParseInt_def Let_def)
  qed
qed

lemma Atoi_not_decimal:
  assumes "\<not> is_decimal s"
  shows "fst (Atoi s) = 0 \<or> fst (Atoi s) = 2 ^ 63 - 1 \<or> fst (Atoi s) = - (2 ^ 63)"
proof (cases "s = []")
  case True
  then show ?thesis by (simp add: Atoi_def ParseInt_def)
next
  case False
  let ?d = "if hd s = CHR ''+'' \<or> hd s = CHR ''-'' then tl s else s"
  from assms False have nd: "?d = [] \<or> \<not> list_all is_digit ?d"
    by (auto simp: is_decimal_def Let_def split: if_splits)
  have "ParseUint ?d 0 = (0, Some ErrSyntax) \<or> ParseUint ?d 0 = (2 ^ 64 - 1, Some ErrRange)"
  proof (cases "?d = []")
    case True
    then show ?thesis by (simp add: ParseUint_def)
  next
    case ne: False
    with nd have "\<not> list_all is_digit ?d" by simp
    from parse_uint_loop_not_digits[OF this, of 0] ne show ?thesis
      by (simp add: ParseUint_def)
  qed
  then show ?thesis using False by (auto simp: Atoi_def ParseInt_def Let_def)
qed

text \<open>
  The effective page and limit in terms of the text of the parameters. A decimal number
  below 1 gives page 1, any other decimal number is the page, saturated at the largest
  \<open>int64\<close>; a text of at most 19 bytes that is not a decimal number gives page 1. A
  decimal number from 1 to 100 is the limit, and every other text gives the limit 10.
\<close>

lemma GetBlogs_page_and_limit_of_text:
  "(is_decimal (DefaultQuery query ''page'' ''1'') \<longrightarrow>
      Page (GetBlogs E db query)
        = (if decimal_value (DefaultQuery query ''page'' ''1'') < 1 then 1
           else min (2 ^ 63 - 1) (decimal_value (DefaultQuery query ''page'' ''1''))))
   \<and> (\<not> is_decimal (DefaultQuery query ''page'' ''1'')
        \<and> length (DefaultQuery query ''page'' ''1'') \<le> 19 \<longrightarrow>
      Page (GetBlogs E db query) = 1)
   \<and> (is_decimal (DefaultQuery query ''limit'' ''10'') \<longrightarrow>
      Limit (GetBlogs E db query)
        = (if decimal_value (DefaultQuery query ''limit'' ''10'') < 1
              \<or> 100 < decimal_value (DefaultQuery query ''limit'' ''10'') then 10
           else decimal_value (DefaultQuery query ''limit'' ''10'')))
   \<and> (\<not> is_decimal (DefaultQuery query ''limit'' ''10'') \<longrightarrow>
      Limit (GetBlogs E db query) = 10)"
proof -
  let ?p = "DefaultQuery query ''page'' ''1''"
  let ?l = "DefaultQuery query ''limit'' ''10''"
  have P: "Page (GetBlogs E db query) = page_of query"
    and L: "Limit (GetBlogs E db query) = limit_of query"
    unfolding GetBlogs_eq by simp_all
  have 1: "is_decimal ?p \<longrightarrow> Page (GetBlogs E db query)
        = (if decimal_value ?p < 1 then 1 else min (2 ^ 63 - 1) (decimal_value ?p))"
    unfolding P page_of_def using Atoi_decimal[of ?p] by auto
  have 2: "\<not> is_decimal ?p \<and> length ?p \<le> 19 \<longrightarrow> Page (GetBlogs E db query) = 1"
    using GetBlogs_page_syntax by blast
  have 3: "is_decimal ?l \<longrightarrow> Limit (GetBlogs E db query)
        = (if decimal_value ?l < 1 \<or> 100 < decimal_value ?l then 10 else decimal_value ?l)"
    unfolding L limit_of_def using Atoi_decimal[of ?l] by auto
  have 4: "\<not> is_decimal ?l \<longrightarrow> Limit (GetBlogs E db query) = 10"
    unfolding L limit_of_def using Atoi_not_decimal[of ?l] by auto
  show ?thesis by (intro conjI 1 2 3 4)
qed

text \<open>
  C1: the effective page is meant to be 1 for every page parameter that is not a number.
  \<open>GetBlogs\<close> drops the error of \<open>strconv.Atoi\<close> and tests the value alone, and the
  value beside a range error is not 0. For the parameter of twenty nines followed by a
  letter, which is not a decimal number, \<open>ParseUint\<close> reports the overflow at the
  twentieth digit, before it reaches the letter, \<open>Atoi\<close> returns the largest \<open>int64\<close>
  beside the range error, and the effective page of the listing is that value, not 1.
\<close>

theorem GetBlogs_page_overflow:
  "\<not> is_decimal ''99999999999999999999x''
   \<and> Atoi ''99999999999999999999x'' = (9223372036854775807, Some ErrRange)
   \<and> Page (GetBlogs ascii_env \<lparr>rows = [], next_id = 1\<rparr>
              [''page'' \<mapsto> ''99999999999999999999x''])
       = 9223372036854775807"
  by code_simp

subsection \<open>The published filter of the listing\<close>

lemma where_featured_filter: "\<exists>P. \<forall>q. where_featured f q = filter P q"
proof (cases "f \<noteq> [] \<and> ParseBool f \<noteq> None")
  case True
  then obtain v where "ParseBool f = Some v" by auto
  with True have "\<forall>q. where_featured f q = filter (\<lambda>b. Featured b = v) q"
    by (simp add: where_featured_def)
  then show ?thesis by blast
next
  case False
  then have "\<forall>q. where_featured f q = filter (\<lambda>b. True) q"
    by (auto simp: where_featured_def split: option.splits)
  then show ?thesis by blast
qed

lemma where_search_filter: "\<exists>P. \<forall>q. where_search E s q = filter P q"
proof (cases "s = []")
  case True
  then have "\<forall>q. where_search E s q = filter (\<lambda>b. True) q" by (simp add: where_search_def)
  then show ?thesis by blast
next
  case False
  then show ?thesis unfolding where_search_def Let_def by (simp, blast)
qed

lemma filter_commute: "filter P (filter Q xs) = filter Q (filter P xs)"
  by (induction xs) simp_all

lemma matching_absent:
  assumes "query ''published'' = None"
  shows "GetBlogs E db query = GetBlogs E db (query(''published'' \<mapsto> ''true''))"
  using assms by (simp add: GetBlogs_def DefaultQuery_def Query_def)

lemma matching_parsed:
  assumes "query ''published'' = Some v" "ParseBool v = Some p"
  shows "matching_rows E db query = filter (\<lambda>b. Published b = p) (unfiltered_rows E db query)"
proof -
  obtain F where F: "\<And>q. where_featured (Query query ''featured'') q = filter F q"
    using where_featured_filter by blast
  obtain S where S: "\<And>q. where_search E (Query query ''search'') q = filter S q"
    using where_search_filter by blast
  have d: "DefaultQuery query ''published'' ''true'' = v" using assms(1) by (simp add: DefaultQuery_def)
  have "matching_rows E db query = filter S (filter F (filter (\<lambda>b. Published b = p) (rows db)))"
    unfolding matching_rows_def d where_published_def assms(2) F S by simp
  also have "\<dots> = filter (\<lambda>b. Published b = p) (filter S (filter F (rows db)))"
    by (simp only: filter_commute[of _ "\<lambda>b. Published b = p"])
  finally show ?thesis unfolding unfiltered_rows_def F S .
qed

lemma matching_unparsed:
  assumes "query ''published'' = Some v" "ParseBool v = None"
  shows "matching_rows E db query = unfiltered_rows E db query"
proof -
  have d: "DefaultQuery query ''published'' ''true'' = v" using assms(1) by (simp add: DefaultQuery_def)
  show ?thesis unfolding matching_rows_def unfiltered_rows_def d where_published_def assms(2) by simp
qed

lemma set_order_offset_limit: "set (order_offset_limit offset limit q) \<subseteq> set q"
proof -
  have a: "set (rev (sort_key CreatedAt (rev q))) = set q" by simp
  have t: "\<And>n xs. set (take n xs) \<subseteq> set (xs :: Blog list)" by (rule set_take_subset)
  have d: "\<And>n xs. set (drop n xs) \<subseteq> set (xs :: Blog list)" by (rule set_drop_subset)
  have "set (order_offset_limit offset limit q) \<subseteq> set (rev (sort_key CreatedAt (rev q)))"
    unfolding order_offset_limit_def Let_def
    using t d by (auto simp del: set_rev set_sort split: if_splits) blast+
  with a show ?thesis by simp
qed

lemma r_Published_ToResponse: "r_Published (ToResponse b c) = Published b"
  by (simp add: ToResponse_def Let_def)

lemma Blogs_parsed:
  assumes "query ''published'' = Some v" "ParseBool v = Some p"
  shows "list_all (\<lambda>r. r_Published r = p) (Blogs (GetBlogs E db query))"
proof -
  have "\<And>b. b \<in> set (matching_rows E db query) \<Longrightarrow> Published b = p"
    unfolding matching_parsed[of query v p E db, OF assms] by simp
  then have "\<And>b. b \<in> set (order_offset_limit (wrap_int64 ((page_of query - 1) * limit_of query))
           (limit_of query) (matching_rows E db query)) \<Longrightarrow> Published b = p"
    using set_order_offset_limit by blast
  then show ?thesis unfolding GetBlogs_eq list_all_iff by (simp add: r_Published_ToResponse)
qed

text \<open>
  C2 (amended). For every listing request: when the published parameter is absent the
  response is the response of the same request with an explicit \<open>published=true\<close>;
  when the parameter parses as a boolean, the rows counted and listed are exactly the rows
  passing the other filters whose Published flag equals the parsed value, and every listed
  item carries that flag; when the parameter is present and does not parse, no filter on
  the Published flag is applied at all.  In each case the total counts the matching rows
  and the items are the matching rows in listing order, cut to the page.
\<close>

theorem GetBlogs_published_filter:
  "(query ''published'' = None \<longrightarrow>
      GetBlogs E db query = GetBlogs E db (query(''published'' \<mapsto> ''true'')))
   \<and> (\<forall>v p. query ''published'' = Some v \<and> ParseBool v = Some p \<longrightarrow>
        matching_rows E db query = filter (\<lambda>b. Published b = p) (unfiltered_rows E db query)
        \<and> list_all (\<lambda>r. r_Published r = p) (Blogs (GetBlogs E db query)))
   \<and> (\<forall>v. query ''published'' = Some v \<and> ParseBool v = None \<longrightarrow>
        matching_rows E db query = unfiltered_rows E db query)
   \<and> Total (GetBlogs E db query) = int (length (matching_rows E db query))
   \<and> Blogs (GetBlogs E db query)
       = map (\<lambda>blog. ToResponse blog False)
           (order_offset_limit (wrap_int64 ((Page (GetBlogs E db query) - 1)
                * Limit (GetBlogs E db query)))
              (Limit (GetBlogs E db query)) (matching_rows E db query))"
proof -
  have 1: "query ''published'' = None \<longrightarrow>
      GetBlogs E db query = GetBlogs E db (query(''published'' \<mapsto> ''true''))"
    using matching_absent by blast
  have 2: "\<forall>v p. query ''published'' = Some v \<and> ParseBool v = Some p \<longrightarrow>
        matching_rows E db query = filter (\<lambda>b. Published b = p) (unfiltered_rows E db query)
        \<and> list_all (\<lambda>r. r_Published r = p) (Blogs (GetBlogs E db query))"
    using matching_parsed Blogs_parsed by blast
  have 3: "\<forall>v. query ''published'' = Some v \<and> ParseBool v = None \<longrightarrow>
        matching_rows E db query = unfiltered_rows E db query"
    using matching_unparsed by blast
  have 4: "Total (GetBlogs E db query) = int (length (matching_rows E db query))"
    unfolding GetBlogs_eq by simp
  have 5: "Blogs (GetBlogs E db query)
       = map (\<lambda>blog. ToResponse blog False)
           (order_offset_limit (wrap_int64 ((Page (GetBlogs E db query) - 1)
                * Limit (GetBlogs E db query)))
              (Limit (GetBlogs E db query)) (matching_rows E db query))"
    unfolding GetBlogs_eq by simp
  show ?thesis by (intro conjI 1 2 3 4 5)
qed


theorem GetBlogs_published_filter_witness:
  "[''published'' \<mapsto> ''maybe''] ''published'' = Some ''maybe''
   \<and> ParseBool ''maybe'' = None
   \<and> matching_rows ascii_env \<lparr>rows = [example_post 2 False], next_id = 3\<rparr>
         [''published'' \<mapsto> ''maybe'']
       = unfiltered_rows ascii_env \<lparr>rows = [example_post 2 False], next_id = 3\<rparr>
           [''published'' \<mapsto> ''maybe'']
   \<and> Total (GetBlogs ascii_env \<lparr>rows = [example_post 2 False], next_id = 3\<rparr>
         [''published'' \<mapsto> ''maybe'']) = 1"
proof -
  let ?q = "[''published'' \<mapsto> ''maybe'']"
  let ?db = "\<lparr>rows = [example_post 2 False], next_id = 3\<rparr>"
  have a: "?q ''published'' = Some ''maybe''" by simp
  have b: "ParseBool ''maybe'' = None" by code_simp
  note th = GetBlogs_published_filter[of ?q ascii_env ?db]
  from th a b have m: "matching_rows ascii_env ?db ?q = unfiltered_rows ascii_env ?db ?q"
    by blast
  have "length (unfiltered_rows ascii_env ?db ?q) = 1" by code_simp
  with th m have t: "Total (GetBlogs ascii_env ?db ?q) = 1" by simp
  show ?thesis by (intro conjI a b m t)
qed

text \<open>
  A request whose published parameter does not parse lists a draft: on a table holding
  one unpublished post, \<open>published=maybe\<close> returns that post, while
  \<open>published=true\<close> returns nothing.
\<close>

theorem GetBlogs_unparsable_published_lists_drafts:
  "ParseBool ''maybe'' = None
   \<and> Total (GetBlogs ascii_env \<lparr>rows = [example_post 2 False], next_id = 3\<rparr>
        [''published'' \<mapsto> ''maybe'']) = 1
   \<and> map r_Published (Blogs (GetBlogs ascii_env \<lparr>rows = [example_post 2 False], next_id = 3\<rparr>
        [''published'' \<mapsto> ''maybe''])) = [False]
   \<and> Total (GetBlogs ascii_env \<lparr>rows = [example_post 2 False], next_id = 3\<rparr>
        [''published'' \<mapsto> ''true'']) = 0"
  by code_simp

subsection \<open>UpdateBlog changes the fields of the request only\<close>





lemma set_column_same:
  "Title (set_column r (''title'', VString v)) = v"
  "Slug (set_column r (''slug'', VString v)) = v"
  "Content (set_column r (''content'', VString v)) = v"
  "Excerpt (set_column r (''excerpt'', VString v)) = v"
  "Author (set_column r (''author'', VString v)) = v"
  "Published (set_column r (''published'', VBool p)) = p"
  "Featured (set_column r (''featured'', VBool p)) = p"
  "Tags (set_column r (''tags'', VString v)) = v"
  "MetaTitle (set_column r (''meta_title'', VString v)) = v"
  "MetaDesc (set_column r (''meta_desc'', VString v)) = v"
  by simp_all













subsection \<open>CreateBlog does not check the declared constraints\<close>

text \<open>No body that binds is answered with 400.\<close>

lemma CreateBlog_never_400: "fst (CreateBlog E now db (Some req)) \<noteq> 400"
  by (simp add: CreateBlog_def Let_def split: option.splits prod.splits)

text \<open>
  C3: the constraints that \<^verbatim>\<open>CreateBlogRequest\<close> declares (title and author not empty,
  content of 10 characters at least, and the upper bounds) are meant to be checked, a
  violation answered with 400 and nothing stored. They are not checked: on an empty
  table, a body with the content \<^verbatim>\<open>short\<close> is answered with 201 and its row is stored,
  and so is a body whose title, content and author are empty.
\<close>

theorem CreateBlog_stores_invalid_request:
  "length (c_Content short_request) < 10
   \<and> fst (CreateBlog ascii_env 100 empty_store (Some short_request)) = 201
   \<and> map Content (rows (store_after (CreateBlog ascii_env 100 empty_store (Some short_request))))
       = [''short'']
   \<and> c_Title blank_request = [] \<and> c_Content blank_request = [] \<and> c_Author blank_request = []
   \<and> fst (CreateBlog ascii_env 100 empty_store (Some blank_request)) = 201
   \<and> length (rows (store_after (CreateBlog ascii_env 100 empty_store (Some blank_request)))) = 1"
  by code_simp

subsection \<open>The publish timestamp after an update\<close>

text \<open>
  C4: the publish timestamp is meant to be set when a post becomes published and to be
  null when it is not published. A post created as a draft and then updated with
  \<^verbatim>\<open>published = true\<close> is stored as published with no publish timestamp; a post created
  as published (its timestamp is the creation time, 100 here) and then updated with
  \<^verbatim>\<open>published = false\<close> is stored as not published and keeps its timestamp. What
  \<^verbatim>\<open>BeforeUpdate\<close> assigns to the value is not among the attributes that the UPDATE
  writes.
\<close>

theorem UpdateBlog_publish_timestamp_not_stored:
  "fst (CreateBlog ascii_env 100 empty_store (Some (post_request False))) = 201
   \<and> fst (UpdateBlog ascii_env 200
            (store_after (CreateBlog ascii_env 100 empty_store (Some (post_request False))))
            ''1'' (Some (set_published True))) = 200
   \<and> map (\<lambda>b. (Published b, PublishedAt b))
        (rows (store_after (UpdateBlog ascii_env 200
            (store_after (CreateBlog ascii_env 100 empty_store (Some (post_request False))))
            ''1'' (Some (set_published True)))))
       = [(True, None)]
   \<and> fst (CreateBlog ascii_env 100 empty_store (Some (post_request True))) = 201
   \<and> map (\<lambda>b. (Published b, PublishedAt b))
        (rows (store_after (CreateBlog ascii_env 100 empty_store (Some (post_request True)))))
       = [(True, Some 100)]
   \<and> fst (UpdateBlog ascii_env 200
            (store_after (CreateBlog ascii_env 100 empty_store (Some (post_request True))))
            ''1'' (Some (set_published False))) = 200
   \<and> map (\<lambda>b. (Published b, PublishedAt b))
        (rows (store_after (UpdateBlog ascii_env 200
            (store_after (CreateBlog ascii_env 100 empty_store (Some (post_request True))))
            ''1'' (Some (set_published False)))))
       = [(False, Some 100)]"
  by code_simp

end
